theory Spec2Isabelle
  imports Complex_Main "HOL-Library.Word"
begin

section \<open>Data model of the inference server core\<close>

text \<open>
  Modelled from the spec: the \<open>Status\<close> enumeration is declared in \<open>infer_server.h\<close>,
  which is not part of the sources; the spec lists its codes.
\<close>

datatype Status = SUCCESS | ERROR_BACKEND | WRONG_TYPE | TIMEOUT | INVALID_PARAM

text \<open>
  Modelled from the spec: \<open>TaskDesc\<close>, \<open>InferData\<close> and \<open>Package\<close> are declared in
  \<open>infer_server.h\<close>, which is not part of the sources; the fields are those of the
  spec's data model that the code reads and writes.

  A \<open>RequestControl*\<close> is an address (a natural number).  What the control does when one
  of its methods is called lives in \<open>request_ctrl.h\<close>, outside the sources, so a call
  is recorded as an event; \<open>IsDiscarded\<close> and \<open>RequestId\<close> are read through functions
  on addresses handed to the operations that call them.
\<close>

record TaskDesc =
  ctrl :: nat
  index :: nat

text \<open>\<open>desc\<close> is a shared pointer that the code tests, moves and resets: \<open>None\<close> is null.\<close>

record InferData =
  payload :: nat
  desc :: "TaskDesc option"

text \<open>
  \<open>descs\<close> holds the descriptors the cache collected from items that passed its
  \<open>CHECK\<close>; the timing map exists only under \<open>CNIS_RECORD_PERF\<close> and is left out.
\<close>

record Package =
  data :: "InferData list"
  descs :: "TaskDesc list"
  priority :: int
  data_num :: nat

text \<open>
  What stops a call short of returning: a failed glog \<open>CHECK\<close> (it aborts the process),
  and the undefined behaviour of C++: a null pointer dereference, an out-of-range read,
  the use of an object after its \<open>delete\<close>.
\<close>

datatype fault = CheckFailed | NullDeref | OutOfRange | UseAfterFree

datatype event =
    ProcessFailed nat Status
  | ProcessDone nat Status InferData nat
  | DoneNotifier
  | VoidPush int nat Package
  | Discard nat
  | Send Package

section \<open>TaskNode\<close>

text \<open>
  \<open>downnode\<close> is the address of the next node, \<open>None\<close> for the tail of the chain.
  \<open>Processor::Process\<close> is user code: it is a parameter, a function from the package to
  the status it returns and the package as the processor left it.  \<open>Priority::Next\<close>
  (\<open>priority.h\<close>, outside the sources) is a parameter as well.
\<close>

record TaskNode =
  processor :: nat
  downnode :: "nat option"

text \<open>The tail loop of \<open>TaskNode::Transmit\<close>, from index \<open>idx\<close> on.\<close>

function tail_notify :: "Package \<Rightarrow> nat \<Rightarrow> fault + event list" where
  "tail_notify pack idx =
     (if idx < length (descs pack) then
        (if idx < length (data pack) then
           (case tail_notify pack (Suc idx) of
              Inl f \<Rightarrow> Inl f
            | Inr es \<Rightarrow>
                Inr (ProcessDone (ctrl (descs pack ! idx)) SUCCESS (data pack ! idx)
                       (index (descs pack ! idx)) # es))
         else Inl OutOfRange)
      else Inr [])"
  by pat_completeness auto
termination
  by (relation "measure (\<lambda>(pack, idx). length (descs pack) - idx)") auto

declare tail_notify.simps [simp del]

definition Transmit :: "(int \<Rightarrow> int) \<Rightarrow> TaskNode \<Rightarrow> Package \<Rightarrow> fault + event list" where
  "Transmit Next node pack =
     (case downnode node of
        Some dn \<Rightarrow>
          (let pack' = pack\<lparr>priority := Next (priority pack)\<rparr>
           in Inr [VoidPush (priority pack') dn pack'])
      | None \<Rightarrow>
          (case tail_notify pack 0 of
             Inl f \<Rightarrow> Inl f
           | Inr es \<Rightarrow> Inr (es @ [DoneNotifier])))"

text \<open>The loop of \<open>TaskNode::operator()\<close> over the descs after a failure.\<close>

fun notify_failed :: "Status \<Rightarrow> TaskDesc list \<Rightarrow> event list" where
  "notify_failed s [] = []"
| "notify_failed s (it # its) = ProcessFailed (ctrl it) s # notify_failed s its"

text \<open>\<open>TaskNode::operator()\<close>.\<close>

definition TaskNode_call ::
  "(int \<Rightarrow> int) \<Rightarrow> (Package \<Rightarrow> Status \<times> Package) \<Rightarrow> TaskNode \<Rightarrow> Package \<Rightarrow> fault + event list"
where
  "TaskNode_call Next Process node pack =
     (case Process pack of
        (s, pack') \<Rightarrow>
          if s \<noteq> SUCCESS then Inr (notify_failed s (descs pack'))
          else Transmit Next node pack')"

text \<open>Events that hand a package on or complete it successfully.\<close>

fun is_forward :: "event \<Rightarrow> bool" where
  "is_forward (ProcessDone c s d i) = True"
| "is_forward DoneNotifier = True"
| "is_forward (VoidPush p n pk) = True"
| "is_forward e = False"

section \<open>The batching cache\<close>

text \<open>
  \<open>CacheBase\<close> with its two subclasses in the sources: the virtual calls dispatch on
  \<open>strategy\<close>.  \<open>cache\<close> is the list \<open>cache_\<close>, \<open>running\<close> the atomic flag, and
  \<open>batcher\<close> the items the Batcher of a dynamic cache holds and has not emitted yet.
  The mutex makes every operation atomic on the queue, so an operation is a function on
  this state.  Three things are read from outside and are parameters:
  \<open>IsDiscarded\<close> and \<open>RequestId\<close> of a control, and \<open>Get\<close> of the cache's \<open>Priority\<close>.
  The enumeration \<open>BatchStrategy\<close> has two more members, \<open>SEQUENCE\<close> and
  \<open>STRATEGY_COUNT\<close>; the sources hold no cache class for them.
\<close>

datatype BatchStrategy = DYNAMIC | STATIC

record CacheBase =
  strategy :: BatchStrategy
  cache_capacity :: "32 word"
  batch_size :: "32 word"
  running :: bool
  cache :: "Package list"
  batcher :: "InferData list"

definition BatchSize :: "CacheBase \<Rightarrow> nat" where
  "BatchSize st = unat (batch_size st)"

text \<open>
  Modelled from the spec: a default-constructed \<open>Package\<close> (the struct is declared in
  \<open>infer_server.h\<close>, outside the sources) has empty sequences and zero counters.  No
  property below depends on its priority.
\<close>

definition fresh_Package :: Package where
  "fresh_Package = \<lparr>data = [], descs = [], priority = 0, data_num = 0\<rparr>"

text \<open>
  The descriptors a sequence of items carries.  Where the code copies or moves the
  \<open>desc\<close> pointers of items into \<open>descs\<close>, a null pointer would become a null entry;
  the model has no null entry and passes such an item over.  Every item this is applied
  to has passed the \<open>CHECK\<close> of \<open>Enqueue\<close> or a dereference of its \<open>desc\<close> in \<open>Pop\<close>
  before, so the case does not arise.
\<close>

fun item_descs :: "InferData list \<Rightarrow> TaskDesc list" where
  "item_descs [] = []"
| "item_descs (it # its) =
     (case desc it of Some d \<Rightarrow> d # item_descs its | None \<Rightarrow> item_descs its)"

definition reset_desc :: "InferData \<Rightarrow> InferData" where
  "reset_desc it = it\<lparr>desc := None\<rparr>"

definition MoveDescToPackage :: "Package \<Rightarrow> Package" where
  "MoveDescToPackage pack =
     pack\<lparr>descs := descs pack @ item_descs (data pack), data := map reset_desc (data pack)\<rparr>"

definition PreparePackage :: "BatchStrategy \<Rightarrow> Package \<Rightarrow> Package" where
  "PreparePackage strat pack =
     (case strat of
        DYNAMIC \<Rightarrow> MoveDescToPackage pack
      | STATIC \<Rightarrow> pack\<lparr>data := map reset_desc (data pack)\<rparr>)"

subsection \<open>Dynamic strategy: the Batcher and its sink\<close>

text \<open>The callback \<open>CacheDynamic\<close> gives its Batcher: one emitted batch becomes a package.\<close>

definition batch_sink ::
  "(int \<Rightarrow> int) \<Rightarrow> (nat \<Rightarrow> int) \<Rightarrow> CacheBase \<Rightarrow> InferData list \<Rightarrow> fault + CacheBase"
where
  "batch_sink Get RequestId st batch =
     (case batch of
        [] \<Rightarrow> Inl OutOfRange
      | it # _ \<Rightarrow>
          (case desc it of
             None \<Rightarrow> Inl NullDeref
           | Some d \<Rightarrow>
               Inr (st\<lparr>cache := cache st @
                      [\<lparr>data = batch, descs = [], priority = Get (- RequestId (ctrl d)),
                        data_num = length batch\<rparr>]\<rparr>)))"

text \<open>
  Modelled from the spec: the Batcher (\<open>util/batcher.h\<close>) is not part of the sources.
  \<open>AddItem\<close> appends; when the size reaches \<open>batch_size\<close> the batch is emitted through
  the sink.  \<open>Emit\<close> force-flushes and is idempotent.  The timer that emits a partial
  batch after \<open>batch_timeout\<close> ms does what \<open>Emit\<close> does, from another thread.
\<close>

definition AddItem ::
  "(int \<Rightarrow> int) \<Rightarrow> (nat \<Rightarrow> int) \<Rightarrow> CacheBase \<Rightarrow> InferData \<Rightarrow> fault + CacheBase"
where
  "AddItem Get RequestId st item =
     (let buf = batcher st @ [item]
      in if BatchSize st \<le> length buf
         then batch_sink Get RequestId (st\<lparr>batcher := []\<rparr>) buf
         else Inr (st\<lparr>batcher := buf\<rparr>))"

definition Emit :: "(int \<Rightarrow> int) \<Rightarrow> (nat \<Rightarrow> int) \<Rightarrow> CacheBase \<Rightarrow> fault + CacheBase" where
  "Emit Get RequestId st =
     (if batcher st = [] then Inr st
      else batch_sink Get RequestId (st\<lparr>batcher := []\<rparr>) (batcher st))"

text \<open>\<open>CacheDynamic::Enqueue\<close>, over the items of the package.\<close>

fun Enqueue_dynamic ::
  "(int \<Rightarrow> int) \<Rightarrow> (nat \<Rightarrow> int) \<Rightarrow> CacheBase \<Rightarrow> InferData list \<Rightarrow> fault + CacheBase"
where
  "Enqueue_dynamic Get RequestId st [] = Inr st"
| "Enqueue_dynamic Get RequestId st (it # its) =
     (case desc it of
        None \<Rightarrow> Inl CheckFailed
      | Some _ \<Rightarrow>
          (case AddItem Get RequestId st it of
             Inl f \<Rightarrow> Inl f
           | Inr st' \<Rightarrow> Enqueue_dynamic Get RequestId st' its))"

subsection \<open>Static strategy: splitting a package\<close>

definition CopyDescToPackageContinuous :: "Package \<Rightarrow> fault + Package" where
  "CopyDescToPackageContinuous pack =
     (case data pack of
        [] \<Rightarrow> Inl OutOfRange
      | it # _ \<Rightarrow>
          (case desc it of
             None \<Rightarrow> Inl NullDeref
           | Some d \<Rightarrow>
               Inr (pack\<lparr>descs := descs pack @
                      map (\<lambda>desc_idx. \<lparr>ctrl = ctrl d, index = desc_idx\<rparr>)
                        [0 ..< data_num pack]\<rparr>)))"

definition CopyDescToPackage :: "Package \<Rightarrow> Package" where
  "CopyDescToPackage pack = pack\<lparr>descs := descs pack @ item_descs (data pack)\<rparr>"

text \<open>
  What \<open>CacheStatic::Enqueue\<close> does to the package under construction when a batch is
  complete: priority, \<open>data_num\<close> and descs.  \<open>data_size\<close> is the size of the incoming
  package's data, \<open>in_num\<close> its \<open>data_num\<close>.
\<close>

definition seal_static ::
  "(int \<Rightarrow> int) \<Rightarrow> (nat \<Rightarrow> int) \<Rightarrow> nat \<Rightarrow> nat \<Rightarrow> nat \<Rightarrow> Package \<Rightarrow> fault + Package"
where
  "seal_static Get RequestId data_size in_num batch_idx pack =
     (case data pack of
        [] \<Rightarrow> Inl OutOfRange
      | it # _ \<Rightarrow>
          (case desc it of
             None \<Rightarrow> Inl NullDeref
           | Some d \<Rightarrow>
               (let pack' = pack\<lparr>priority := Get (- RequestId (ctrl d)),
                                 data_num := (if data_size = 1 then in_num else batch_idx)\<rparr>
                in if data_size = 1 \<and> in_num \<noteq> 1 then CopyDescToPackageContinuous pack'
                   else Inr (CopyDescToPackage pack'))))"

text \<open>
  The loop of \<open>CacheStatic::Enqueue\<close> from index \<open>idx\<close> on; \<open>pack\<close> is the package under
  construction, \<open>batch_idx\<close> the loop's counter and \<open>q\<close> the queue \<open>cache_\<close>.
  \<open>BatchSize() - 1\<close> is computed on 32-bit unsigned integers and wraps at zero.
\<close>

function static_loop ::
  "(int \<Rightarrow> int) \<Rightarrow> (nat \<Rightarrow> int) \<Rightarrow> 32 word \<Rightarrow> Package \<Rightarrow> nat \<Rightarrow> Package \<Rightarrow> nat \<Rightarrow>
   Package list \<Rightarrow> fault + Package list"
where
  "static_loop Get RequestId bs inp idx pack batch_idx q =
     (if idx < length (data inp) then
        (case desc (data inp ! idx) of
           None \<Rightarrow> Inl CheckFailed
         | Some _ \<Rightarrow>
             (let pack1 = pack\<lparr>data := data pack @ [data inp ! idx]\<rparr>;
                  batch_idx1 = batch_idx + 1
              in if unat (bs - 1) < batch_idx1 \<or> idx = length (data inp) - 1 then
                   (case seal_static Get RequestId (length (data inp)) (data_num inp)
                           batch_idx1 pack1 of
                      Inl f \<Rightarrow> Inl f
                    | Inr done \<Rightarrow>
                        static_loop Get RequestId bs inp (Suc idx) fresh_Package 0
                          (q @ [done]))
                 else static_loop Get RequestId bs inp (Suc idx) pack1 batch_idx1 q))
      else Inr q)"
  by pat_completeness auto
termination
  by (relation "measure (\<lambda>(Get, RequestId, bs, inp, idx, pack, batch_idx, q).
                  length (data inp) - idx)") auto

declare static_loop.simps [simp del]

definition Enqueue ::
  "(int \<Rightarrow> int) \<Rightarrow> (nat \<Rightarrow> int) \<Rightarrow> CacheBase \<Rightarrow> Package \<Rightarrow> fault + CacheBase"
where
  "Enqueue Get RequestId st pack =
     (case strategy st of
        DYNAMIC \<Rightarrow> Enqueue_dynamic Get RequestId st (data pack)
      | STATIC \<Rightarrow>
          (case static_loop Get RequestId (batch_size st) pack 0 fresh_Package 0 (cache st) of
             Inl f \<Rightarrow> Inl f
           | Inr q \<Rightarrow> Inr (st\<lparr>cache := q\<rparr>)))"

subsection \<open>Start, Stop, Push\<close>

definition Start :: "CacheBase \<Rightarrow> CacheBase" where
  "Start st = st\<lparr>running := True\<rparr>"

definition Stop :: "(int \<Rightarrow> int) \<Rightarrow> (nat \<Rightarrow> int) \<Rightarrow> CacheBase \<Rightarrow> fault + CacheBase" where
  "Stop Get RequestId st =
     (case strategy st of
        DYNAMIC \<Rightarrow> Emit Get RequestId (st\<lparr>running := False\<rparr>)
      | STATIC \<Rightarrow> Inr (st\<lparr>running := False\<rparr>))"

text \<open>\<open>CacheBase::Push\<close>; the argument is a pointer, \<open>None\<close> is null.\<close>

definition Push ::
  "(int \<Rightarrow> int) \<Rightarrow> (nat \<Rightarrow> int) \<Rightarrow> CacheBase \<Rightarrow> Package option \<Rightarrow> fault + bool \<times> CacheBase"
where
  "Push Get RequestId st pack =
     (case pack of
        None \<Rightarrow> Inl CheckFailed
      | Some p \<Rightarrow>
          if \<not> running st then Inr (False, st)
          else (case Enqueue Get RequestId st p of
                  Inl f \<Rightarrow> Inl f
                | Inr st' \<Rightarrow> Inr (True, st')))"

subsection \<open>The discard sweep and Pop\<close>

text \<open>The \<open>find_if\<close> of \<open>Pop\<close>: it dereferences items up to the first discarded one.\<close>

fun any_discarded :: "(nat \<Rightarrow> bool) \<Rightarrow> InferData list \<Rightarrow> fault + bool" where
  "any_discarded IsDiscarded [] = Inr False"
| "any_discarded IsDiscarded (it # its) =
     (case desc it of
        None \<Rightarrow> Inl NullDeref
      | Some d \<Rightarrow> if IsDiscarded (ctrl d) then Inr True else any_discarded IsDiscarded its)"

text \<open>
  The inner loop of \<open>CacheDynamic::ClearDiscard\<close> over the items of one package: the
  items kept, and the reports made.
\<close>

fun scan_items :: "(nat \<Rightarrow> bool) \<Rightarrow> InferData list \<Rightarrow> fault + InferData list \<times> event list" where
  "scan_items IsDiscarded [] = Inr ([], [])"
| "scan_items IsDiscarded (it # its) =
     (case desc it of
        None \<Rightarrow> Inl NullDeref
      | Some d \<Rightarrow>
          (case scan_items IsDiscarded its of
             Inl f \<Rightarrow> Inl f
           | Inr (keep, es) \<Rightarrow>
               if \<not> IsDiscarded (ctrl d) then Inr (it # keep, es)
               else Inr (keep, ProcessFailed (ctrl d) SUCCESS # es)))"

text \<open>The \<open>do ... while (pack)\<close> loop of the dynamic sweep, over the queue.\<close>

fun collect_live ::
  "(nat \<Rightarrow> bool) \<Rightarrow> Package list \<Rightarrow> fault + InferData list \<times> event list"
where
  "collect_live IsDiscarded [] = Inr ([], [])"
| "collect_live IsDiscarded (pack # q) =
     (case scan_items IsDiscarded (data pack) of
        Inl f \<Rightarrow> Inl f
      | Inr (keep, es) \<Rightarrow>
          (case collect_live IsDiscarded q of
             Inl f \<Rightarrow> Inl f
           | Inr (keep', es') \<Rightarrow> Inr (keep @ keep', es @ es')))"

text \<open>
  The second loop of the dynamic sweep: \<open>live\<close> is the local list still to be packed,
  \<open>cur\<close> the data of the package under construction; the result is what is pushed to
  the back of \<open>cache_\<close>.
\<close>

fun rebatch :: "nat \<Rightarrow> InferData list \<Rightarrow> InferData list \<Rightarrow> Package list" where
  "rebatch bs [] cur = []"
| "rebatch bs (it # live) cur =
     (let cur' = cur @ [it]
      in if bs \<le> length cur' \<or> live = []
         then fresh_Package\<lparr>data := cur', data_num := length cur'\<rparr> # rebatch bs live []
         else rebatch bs live cur')"

text \<open>The reports of the static sweep for one dropped package.\<close>

fun report_all :: "InferData list \<Rightarrow> fault + event list" where
  "report_all [] = Inr []"
| "report_all (it # its) =
     (case desc it of
        None \<Rightarrow> Inl NullDeref
      | Some d \<Rightarrow>
          (case report_all its of
             Inl f \<Rightarrow> Inl f
           | Inr es \<Rightarrow> Inr (ProcessFailed (ctrl d) SUCCESS # es)))"

text \<open>The \<open>do ... while (pack)\<close> loop of \<open>CacheStatic::ClearDiscard\<close>.\<close>

fun sweep_static ::
  "(nat \<Rightarrow> bool) \<Rightarrow> Package list \<Rightarrow> fault + Package list \<times> event list"
where
  "sweep_static IsDiscarded [] = Inr ([], [])"
| "sweep_static IsDiscarded (pack # q) =
     (case data pack of
        [] \<Rightarrow> Inl OutOfRange
      | it # _ \<Rightarrow>
          (case desc it of
             None \<Rightarrow> Inl NullDeref
           | Some d \<Rightarrow>
               if \<not> IsDiscarded (ctrl d) then
                 (case sweep_static IsDiscarded q of
                    Inl f \<Rightarrow> Inl f
                  | Inr (keep, es) \<Rightarrow> Inr (pack # keep, es))
               else
                 (case report_all (data pack) of
                    Inl f \<Rightarrow> Inl f
                  | Inr es \<Rightarrow>
                      (case sweep_static IsDiscarded q of
                         Inl f \<Rightarrow> Inl f
                       | Inr (keep, es') \<Rightarrow> Inr (keep, es @ es')))))"

text \<open>
  \<open>ClearDiscard\<close>.  Both loops start with \<open>cache_.pop_front()\<close>, so the queue must not be
  empty; \<open>Pop\<close> calls it with the head package in hand.
\<close>

definition ClearDiscard :: "(nat \<Rightarrow> bool) \<Rightarrow> CacheBase \<Rightarrow> fault + CacheBase \<times> event list" where
  "ClearDiscard IsDiscarded st =
     (if cache st = [] then Inl OutOfRange
      else
        (case strategy st of
           DYNAMIC \<Rightarrow>
             (case collect_live IsDiscarded (cache st) of
                Inl f \<Rightarrow> Inl f
              | Inr (live, es) \<Rightarrow> Inr (st\<lparr>cache := rebatch (BatchSize st) live []\<rparr>, es))
         | STATIC \<Rightarrow>
             (case sweep_static IsDiscarded (cache st) of
                Inl f \<Rightarrow> Inl f
              | Inr (keep, es) \<Rightarrow> Inr (st\<lparr>cache := keep\<rparr>, es))))"

text \<open>
  \<open>CacheBase::Pop\<close>.  \<open>Blocked\<close>: the queue is empty and the cache is running, so the
  caller stays in \<open>cache_cond_.wait\<close> until another thread changes the state; the other
  two results are what the call returns from the state it wakes up in.
\<close>

datatype pop_result = Blocked | Null | Got Package

definition Pop ::
  "(nat \<Rightarrow> bool) \<Rightarrow> CacheBase \<Rightarrow> fault + pop_result \<times> CacheBase \<times> event list"
where
  "Pop IsDiscarded st =
     (case cache st of
        [] \<Rightarrow> if running st then Inr (Blocked, st, []) else Inr (Null, st, [])
      | pack # q \<Rightarrow>
          (case any_discarded IsDiscarded (data pack) of
             Inl f \<Rightarrow> Inl f
           | Inr False \<Rightarrow> Inr (Got (PreparePackage (strategy st) pack), st\<lparr>cache := q\<rparr>, [])
           | Inr True \<Rightarrow>
               (case ClearDiscard IsDiscarded st of
                  Inl f \<Rightarrow> Inl f
                | Inr (st', es) \<Rightarrow>
                    (case cache st' of
                       [] \<Rightarrow> Inr (Null, st', es)
                     | pack' # q' \<Rightarrow>
                         Inr (Got (PreparePackage (strategy st) pack'), st'\<lparr>cache := q'\<rparr>,
                              es)))))"

section \<open>The InferServer facade\<close>

text \<open>
  A pointer argument is an option, \<open>None\<close> for null.  Modelled from the spec: \<open>Model\<close>,
  \<open>Processor\<close>, \<open>SessionDesc\<close> and \<open>Session\<close> are declared in headers outside the
  sources; the facade sees a model and a processor only through \<open>Path\<close>,
  \<open>FunctionName\<close> and \<open>TypeName\<close>, and a session through its executor and its link
  mode.
\<close>

record Model =
  Path :: string
  FunctionName :: string

record Processor =
  TypeName :: string

record SessionDesc =
  name :: string
  model :: "Model option"
  preproc :: "Processor option"
  postproc :: "Processor option"
  engine_num :: "32 word"
  show_perf :: bool

text \<open>
  Modelled from the spec: the default \<open>Postprocessor\<close> (\<open>processor.h\<close>, outside the
  sources) that replaces a null \<open>postproc\<close>.  No property below depends on its type name.
\<close>

definition Postprocessor :: Processor where
  "Postprocessor = \<lparr>TypeName = ''Postprocessor''\<rparr>"

text \<open>\<open>executor\<close> is the \<open>Executor_t\<close> the session holds; a session without observer is sync.\<close>

record Session =
  sess_name :: string
  executor :: nat
  sync_link :: bool
  observer :: "nat option"

text \<open>
  Modelled from the spec: the \<open>Executor\<close> class (\<open>session.h\<close>) is not part of the sources.
  The facade uses its name (the signature string \<open>CreateExecutor\<close> put into the desc),
  its engine number, and \<open>Link\<close>, \<open>Unlink\<close> and \<open>GetSessionNum\<close> on the set of
  sessions attached to it.
\<close>

record Executor =
  exec_name :: string
  exec_engine_num :: "32 word"
  linked :: "nat list"

definition Link :: "Executor \<Rightarrow> nat \<Rightarrow> Executor" where
  "Link ex s = ex\<lparr>linked := s # linked ex\<rparr>"

definition Unlink :: "Executor \<Rightarrow> nat \<Rightarrow> Executor" where
  "Unlink ex s = ex\<lparr>linked := removeAll s (linked ex)\<rparr>"

definition GetSessionNum :: "Executor \<Rightarrow> nat" where
  "GetSessionNum ex = length (linked ex)"

text \<open>
  \<open>InferServerPrivate\<close>, the per-device singleton: \<open>executor_map_\<close>, the thread pool's
  size, and the heap of the objects it creates with \<open>new\<close> (\<open>next_addr\<close> is the next free
  address).  The pool's size is a \<open>size_t\<close>, 64 bits wide; an engine number is an
  unsigned 32-bit integer, and the products \<open>3 * engine_num\<close> and \<open>2 * engine_num\<close>
  are computed in 32 bits before they meet the pool's size.
\<close>

record InferServerPrivate =
  executor_map :: "string \<rightharpoonup> nat"
  executors :: "nat \<rightharpoonup> Executor"
  sessions :: "nat \<rightharpoonup> Session"
  next_addr :: nat
  tp_size :: "64 word"

definition executor_name :: "Model \<Rightarrow> Processor \<Rightarrow> Processor \<Rightarrow> string" where
  "executor_name m pre post =
     Path m @ ''_'' @ FunctionName m @ ''_'' @ TypeName pre @ ''_'' @ TypeName post"

text \<open>
  \<open>InferServerPrivate::CreateExecutor\<close>.  \<open>ctor_throws\<close> tells whether the constructor of
  \<open>Executor\<close> throws \<open>std::runtime_error\<close> for this desc; \<open>cores\<close> is
  \<open>GetCpuCoreNumber()\<close>.
\<close>

definition CreateExecutor ::
  "(SessionDesc \<Rightarrow> bool) \<Rightarrow> nat \<Rightarrow> InferServerPrivate \<Rightarrow> SessionDesc \<Rightarrow>
   fault + nat option \<times> InferServerPrivate"
where
  "CreateExecutor ctor_throws cores srv d =
     (case model d of None \<Rightarrow> Inl NullDeref | Some m \<Rightarrow>
      case preproc d of None \<Rightarrow> Inl NullDeref | Some pre \<Rightarrow>
      case postproc d of None \<Rightarrow> Inl NullDeref | Some post \<Rightarrow>
        (let nm = executor_name m pre post
         in case executor_map srv nm of
              Some e \<Rightarrow> Inr (Some e, srv)
            | None \<Rightarrow>
                if ctor_throws d then Inr (None, srv)
                else
                  (let e = next_addr srv;
                       srv1 = srv\<lparr>executor_map := (executor_map srv)(nm \<mapsto> e),
                                 executors := (executors srv)(e \<mapsto>
                                   \<lparr>exec_name = nm, exec_engine_num = engine_num d,
                                    linked = []\<rparr>),
                                 next_addr := Suc e\<rparr>;
                       thread_num = tp_size srv1;
                       max_thread_num = (of_nat (3 * cores) :: 64 word)
                   in Inr (Some e,
                        if thread_num < max_thread_num
                        then srv1\<lparr>tp_size :=
                                 min (thread_num + ucast (3 * engine_num d)) max_thread_num\<rparr>
                        else srv1))))"

text \<open>\<open>InferServer::CreateSession\<close>; the result is the address of the new session.\<close>

definition CreateSession ::
  "(SessionDesc \<Rightarrow> bool) \<Rightarrow> nat \<Rightarrow> InferServerPrivate \<Rightarrow> SessionDesc \<Rightarrow> nat option \<Rightarrow>
   fault + nat option \<times> InferServerPrivate"
where
  "CreateSession ctor_throws cores srv d obs =
     (if model d = None then Inl CheckFailed
      else if preproc d = None then Inl CheckFailed
      else
        (let d1 = (if postproc d = None then d\<lparr>postproc := Some Postprocessor\<rparr> else d)
         in case CreateExecutor ctor_throws cores srv d1 of
              Inl f \<Rightarrow> Inl f
            | Inr (None, srv1) \<Rightarrow> Inr (None, srv1)
            | Inr (Some e, srv1) \<Rightarrow>
                (case executors srv1 e of
                   None \<Rightarrow> Inl UseAfterFree
                 | Some ex \<Rightarrow>
                     (let s = next_addr srv1;
                          session = \<lparr>sess_name = name d1, executor = e,
                                     sync_link = (obs = None), observer = obs\<rparr>
                      in Inr (Some s,
                           srv1\<lparr>sessions := (sessions srv1)(s \<mapsto> session),
                                executors := (executors srv1)(e \<mapsto> Link ex s),
                                next_addr := Suc s\<rparr>)))))"

text \<open>
  \<open>InferServerPrivate::CheckAndDestroyExecutor\<close>; \<open>idle\<close> is what
  \<open>tp_->IdleNumber()\<close> returns, which the code casts to 32 bits.  The subtraction
  from the pool's size wraps in 64 bits.
\<close>

definition CheckAndDestroyExecutor ::
  "nat \<Rightarrow> InferServerPrivate \<Rightarrow> nat \<Rightarrow> nat \<Rightarrow> Executor \<Rightarrow> fault + InferServerPrivate"
where
  "CheckAndDestroyExecutor idle srv s e ex =
     (let ex1 = Unlink ex s;
          srv1 = srv\<lparr>executors := (executors srv)(e \<mapsto> ex1),
                    sessions := (sessions srv)(s := None)\<rparr>
      in if GetSessionNum ex1 = 0 then
           (if executor_map srv1 (exec_name ex1) \<noteq> None then
              (let th_num = 2 * exec_engine_num ex1;
                   srv2 = srv1\<lparr>executor_map := (executor_map srv1)(exec_name ex1 := None),
                              executors := (executors srv1)(e := None)\<rparr>
               in Inr (if th_num < (of_nat idle :: 32 word)
                       then srv2\<lparr>tp_size := tp_size srv2 - ucast th_num\<rparr>
                       else srv2))
            else Inl CheckFailed)
         else Inr srv1)"

text \<open>
  \<open>InferServer::DestroySession\<close>.  A session or executor address that is no longer on
  the heap is a dangling pointer.
\<close>

definition DestroySession ::
  "nat \<Rightarrow> InferServerPrivate \<Rightarrow> nat option \<Rightarrow> fault + bool \<times> InferServerPrivate"
where
  "DestroySession idle srv session =
     (case session of
        None \<Rightarrow> Inl CheckFailed
      | Some s \<Rightarrow>
          (case sessions srv s of
             None \<Rightarrow> Inl UseAfterFree
           | Some sess \<Rightarrow>
               (case executors srv (executor sess) of
                  None \<Rightarrow> Inl UseAfterFree
                | Some ex \<Rightarrow>
                    if executor_map srv (exec_name ex) = None then Inr (False, srv)
                    else
                      (case CheckAndDestroyExecutor idle srv s (executor sess) ex of
                         Inl f \<Rightarrow> Inl f
                       | Inr srv1 \<Rightarrow> Inr (True, srv1)))))"

text \<open>A sequence of facade calls on one server, stopping at the first fault.\<close>

datatype facade_call = Create SessionDesc "nat option" | Destroy nat nat

fun run_calls ::
  "(SessionDesc \<Rightarrow> bool) \<Rightarrow> nat \<Rightarrow> InferServerPrivate \<Rightarrow> facade_call list \<Rightarrow>
   fault + InferServerPrivate"
where
  "run_calls ctor_throws cores srv [] = Inr srv"
| "run_calls ctor_throws cores srv (Create d obs # cs) =
     (case CreateSession ctor_throws cores srv d obs of
        Inl f \<Rightarrow> Inl f
      | Inr (_, srv1) \<Rightarrow> run_calls ctor_throws cores srv1 cs)"
| "run_calls ctor_throws cores srv (Destroy s idle # cs) =
     (case DestroySession idle srv (Some s) of
        Inl f \<Rightarrow> Inl f
      | Inr (_, srv1) \<Rightarrow> run_calls ctor_throws cores srv1 cs)"

text \<open>
  \<open>InferServer::Request\<close>.  What the blocking calls into classes outside the sources
  give back is handed in: \<open>wait_ok\<close> is the result of \<open>WaitIfCacheFull(timeout)\<close>,
  \<open>sent\<close> the control \<open>Session::Send\<close> returns (null when it fails).
\<close>

definition Request ::
  "Session option \<Rightarrow> Package option \<Rightarrow> int \<Rightarrow> bool \<Rightarrow> nat option \<Rightarrow> fault + bool \<times> event list"
where
  "Request session input timeout wait_ok sent =
     (case session of None \<Rightarrow> Inl CheckFailed | Some sess \<Rightarrow>
      case input of None \<Rightarrow> Inl CheckFailed | Some inp \<Rightarrow>
        if sync_link sess then Inr (False, [])
        else if \<not> wait_ok then Inr (False, [])
        else Inr (sent \<noteq> None, [Send inp]))"

text \<open>The conversion of a \<open>double\<close> to \<open>int\<close>: truncation towards zero.\<close>

definition trunc_int :: "real \<Rightarrow> int" where
  "trunc_int x = (if 0 \<le> x then \<lfloor>x\<rfloor> else \<lceil>x\<rceil>)"

text \<open>
  \<open>InferServer::RequestSync\<close>.  \<open>status\<close> and \<open>output\<close> are pointers to the caller's
  variables, given with their current contents; the result carries the contents after
  the call.  In addition to \<open>wait_ok\<close> and \<open>sent\<close>: \<open>wait_time\<close> is the time in ms that
  \<open>WaitIfCacheFull\<close> took, and \<open>fulfilled\<close> is the status and data the per-request
  callback delivered before the wait on the future ended, \<open>None\<close> when it did not run in
  that time.  \<open>Waiting\<close>: \<open>flag.wait()\<close> has no time limit and has not returned.
\<close>

datatype sync_outcome = Returned bool | Waiting

definition RequestSync ::
  "Session option \<Rightarrow> Package option \<Rightarrow> Status option \<Rightarrow> Package option \<Rightarrow> int \<Rightarrow>
   bool \<Rightarrow> real \<Rightarrow> nat option \<Rightarrow> (Status \<times> Package) option \<Rightarrow>
   fault + sync_outcome \<times> Status \<times> Package \<times> event list"
where
  "RequestSync session input status output timeout wait_ok wait_time sent fulfilled =
     (case session of None \<Rightarrow> Inl CheckFailed | Some sess \<Rightarrow>
      case input of None \<Rightarrow> Inl CheckFailed | Some inp \<Rightarrow>
      case output of None \<Rightarrow> Inl CheckFailed | Some out \<Rightarrow>
      case status of None \<Rightarrow> Inl CheckFailed | Some st \<Rightarrow>
        if \<not> sync_link sess then Inr (Returned False, st, out, [])
        else if \<not> wait_ok then Inr (Returned False, TIMEOUT, out, [])
        else
          (let timeout1 = (if 0 < timeout then trunc_int (real_of_int timeout - wait_time)
                           else timeout)
           in if 0 < timeout \<and> timeout1 < 1 then Inr (Returned False, TIMEOUT, out, [])
              else
                (case sent of
                   None \<Rightarrow> Inr (Returned False, st, out, [Send inp])
                 | Some c \<Rightarrow>
                     if 0 < timeout1 then
                       (case fulfilled of
                          None \<Rightarrow> Inr (Returned True, TIMEOUT, out, [Send inp, Discard c])
                        | Some (s, d) \<Rightarrow> Inr (Returned True, s, d, [Send inp]))
                     else
                       (case fulfilled of
                          None \<Rightarrow> Inr (Waiting, st, out, [Send inp])
                        | Some (s, d) \<Rightarrow> Inr (Returned True, s, d, [Send inp])))))"

section \<open>Auxiliary notions for the statements\<close>

text \<open>
  The signature of a session desc, as the spec names it: model path, model function name,
  preproc type name and postproc type name, the default postprocessor standing in for a
  null \<open>postproc\<close>; \<open>None\<close> when model or preproc is missing.
\<close>

definition signature_of :: "SessionDesc \<Rightarrow> (string \<times> string \<times> string \<times> string) option" where
  "signature_of d =
     (case model d of None \<Rightarrow> None | Some m \<Rightarrow>
      case preproc d of None \<Rightarrow> None | Some pre \<Rightarrow>
        Some (Path m, FunctionName m, TypeName pre,
              TypeName (case postproc d of None \<Rightarrow> Postprocessor | Some post \<Rightarrow> post)))"

text \<open>A server as its constructor leaves it: no executor, an empty heap, a pool of \<open>tp\<close>
  threads.\<close>

definition InferServerPrivate_new :: "64 word \<Rightarrow> InferServerPrivate" where
  "InferServerPrivate_new tp =
     \<lparr>executor_map = Map.empty, executors = Map.empty, sessions = Map.empty,
      next_addr = 0, tp_size = tp\<rparr>"

text \<open>The call destroys session \<open>s\<close>.\<close>

definition destroys :: "nat \<Rightarrow> facade_call \<Rightarrow> bool" where
  "destroys s c = (case c of Destroy s' _ \<Rightarrow> s' = s | Create _ _ \<Rightarrow> False)"

text \<open>
  The invariant of the server that the facade calls maintain: every executor on the heap
  is registered under its own name, every registered name leads to an executor of that
  name, every session is linked to the executor it points to, and all addresses in use
  lie below the next free one.
\<close>

definition srv_inv :: "InferServerPrivate \<Rightarrow> bool" where
  "srv_inv srv \<longleftrightarrow>
     (\<forall>e ex. executors srv e = Some ex \<longrightarrow>
        executor_map srv (exec_name ex) = Some e \<and> e < next_addr srv) \<and>
     (\<forall>nm e. executor_map srv nm = Some e \<longrightarrow> (\<exists>ex. executors srv e = Some ex \<and> exec_name ex = nm)) \<and>
     (\<forall>s sess. sessions srv s = Some sess \<longrightarrow>
        s < next_addr srv \<and>
        (\<exists>ex. executors srv (executor sess) = Some ex \<and> s \<in> set (linked ex)))"

text \<open>The state after \<open>CreateSession\<close> has allocated a session and linked it.\<close>

definition link_session ::
  "InferServerPrivate \<Rightarrow> nat \<Rightarrow> Executor \<Rightarrow> Session \<Rightarrow> InferServerPrivate" where
  "link_session srv e ex sess =
     srv\<lparr>sessions := (sessions srv)(next_addr srv \<mapsto> sess),
         executors := (executors srv)(e \<mapsto> Link ex (next_addr srv)),
         next_addr := Suc (next_addr srv)\<rparr>"

text \<open>Session \<open>s\<close> is on the heap as \<open>sess\<close>, and its executor is alive and named \<open>nm\<close>.\<close>

definition attached :: "InferServerPrivate \<Rightarrow> nat \<Rightarrow> Session \<Rightarrow> string \<Rightarrow> bool" where
  "attached srv s sess nm \<longleftrightarrow>
     sessions srv s = Some sess \<and>
     (\<exists>ex. executors srv (executor sess) = Some ex \<and> exec_name ex = nm)"

definition effective_postproc :: "SessionDesc \<Rightarrow> Processor" where
  "effective_postproc d = (case postproc d of None \<Rightarrow> Postprocessor | Some post \<Rightarrow> post)"

text \<open>Concrete inputs for the instances below.\<close>

definition never_throws :: "SessionDesc \<Rightarrow> bool" where
  "never_throws d = False"

definition always_throws :: "SessionDesc \<Rightarrow> bool" where
  "always_throws d = True"

definition sample_desc :: "string \<Rightarrow> string \<Rightarrow> SessionDesc" where
  "sample_desc nm path =
     \<lparr>name = nm, model = Some \<lparr>Path = path, FunctionName = ''subnet0''\<rparr>,
      preproc = Some \<lparr>TypeName = ''PreprocessorHost''\<rparr>, postproc = None,
      engine_num = 1, show_perf = False\<rparr>"

definition desc_without_model :: SessionDesc where
  "desc_without_model = (sample_desc ''a'' ''m1'')\<lparr>model := None\<rparr>"

definition a_session :: "bool \<Rightarrow> Session" where
  "a_session sync =
     \<lparr>sess_name = ''s'', executor = 0, sync_link = sync,
      observer = (if sync then None else Some 9)\<rparr>"

definition a_package :: Package where
  "a_package = \<lparr>data = [\<lparr>payload = 7, desc = None\<rparr>], descs = [], priority = 0, data_num = 1\<rparr>"

definition srv_one :: InferServerPrivate where
  "srv_one =
     (case CreateSession never_throws 4 (InferServerPrivate_new 0) (sample_desc ''a'' ''m1'') None of
        Inr (_, srv) \<Rightarrow> srv
      | Inl _ \<Rightarrow> InferServerPrivate_new 0)"

definition srv_two :: InferServerPrivate where
  "srv_two =
     (case run_calls never_throws 4 srv_one
             [Create (sample_desc ''c'' ''m2'') (Some 7), Destroy 3 0] of
        Inr srv \<Rightarrow> srv
      | Inl _ \<Rightarrow> srv_one)"

text \<open>An item carries a descriptor.\<close>

definition has_desc :: "InferData \<Rightarrow> bool" where
  "has_desc it = (desc it \<noteq> None)"

text \<open>The control of the item's descriptor is discarded.\<close>

definition item_discarded :: "(nat \<Rightarrow> bool) \<Rightarrow> InferData \<Rightarrow> bool" where
  "item_discarded IsDiscarded it =
     (case desc it of Some d \<Rightarrow> IsDiscarded (ctrl d) | None \<Rightarrow> False)"

text \<open>The first item of the package is discarded: what the static sweep looks at.\<close>

definition first_discarded :: "(nat \<Rightarrow> bool) \<Rightarrow> Package \<Rightarrow> bool" where
  "first_discarded IsDiscarded p =
     (case data p of [] \<Rightarrow> False | it # _ \<Rightarrow> item_discarded IsDiscarded it)"

text \<open>The report a sweep makes for a removed item.\<close>

definition report :: "TaskDesc \<Rightarrow> event" where
  "report d = ProcessFailed (ctrl d) SUCCESS"

fun is_success_report :: "event \<Rightarrow> bool" where
  "is_success_report (ProcessFailed c s) = (s = SUCCESS)"
| "is_success_report e = False"

text \<open>
  What holds of every package in the queue, by construction: it has data, every item
  carries its descriptor; a dynamic package has no descs yet, and the descs of a static
  package name controls of its items.
\<close>

definition pack_ok :: "BatchStrategy \<Rightarrow> Package \<Rightarrow> bool" where
  "pack_ok strat p \<longleftrightarrow>
     data p \<noteq> [] \<and> list_all has_desc (data p) \<and>
     (case strat of
        DYNAMIC \<Rightarrow> descs p = []
      | STATIC \<Rightarrow> list_all (\<lambda>d. ctrl d \<in> set (map ctrl (item_descs (data p)))) (descs p))"

definition cache_ok :: "CacheBase \<Rightarrow> bool" where
  "cache_ok st \<longleftrightarrow>
     list_all (pack_ok (strategy st)) (cache st) \<and> list_all has_desc (batcher st)"

text \<open>All items of the package belong to one request: they share one control.\<close>

definition one_request :: "Package \<Rightarrow> bool" where
  "one_request p =
     (case item_descs (data p) of [] \<Rightarrow> True | d # ds \<Rightarrow> list_all (\<lambda>e. ctrl e = ctrl d) ds)"

text \<open>All items in the queue.\<close>

definition all_items :: "CacheBase \<Rightarrow> InferData list" where
  "all_items st = concat (map data (cache st))"

text \<open>The head package of the queue holds a discarded item: what triggers the sweep.\<close>

definition head_discarded :: "(nat \<Rightarrow> bool) \<Rightarrow> CacheBase \<Rightarrow> bool" where
  "head_discarded IsDiscarded st =
     (case cache st of [] \<Rightarrow> False | pack # _ \<Rightarrow> list_ex (item_discarded IsDiscarded) (data pack))"

text \<open>
  The sweep leaves nothing in the queue: under the dynamic strategy every item is
  discarded, under the static strategy the first item of every package is.
\<close>

definition nothing_survives :: "(nat \<Rightarrow> bool) \<Rightarrow> CacheBase \<Rightarrow> bool" where
  "nothing_survives IsDiscarded st =
     (case strategy st of
        DYNAMIC \<Rightarrow> list_all (item_discarded IsDiscarded) (all_items st)
      | STATIC \<Rightarrow> list_all (first_discarded IsDiscarded) (cache st))"

text \<open>Concrete caches, items and packages for the instances below.\<close>

definition CacheBase_new :: "BatchStrategy \<Rightarrow> 32 word \<Rightarrow> 32 word \<Rightarrow> CacheBase" where
  "CacheBase_new strat capacity bs =
     \<lparr>strategy = strat, cache_capacity = capacity, batch_size = bs, running = False,
      cache = [], batcher = []\<rparr>"

definition item :: "nat \<Rightarrow> nat \<Rightarrow> InferData" where
  "item c i = \<lparr>payload = 10 * c + i, desc = Some \<lparr>ctrl = c, index = i\<rparr>\<rparr>"

definition request_of :: "InferData list \<Rightarrow> nat \<Rightarrow> Package" where
  "request_of items n = \<lparr>data = items, descs = [], priority = 0, data_num = n\<rparr>"

definition none_discarded :: "nat \<Rightarrow> bool" where
  "none_discarded c = False"

definition discarded_1 :: "nat \<Rightarrow> bool" where
  "discarded_1 c = (c = 1)"

definition discarded_2 :: "nat \<Rightarrow> bool" where
  "discarded_2 c = (c = 2)"

definition drained :: "CacheBase \<Rightarrow> CacheBase" where
  "drained st = st\<lparr>cache := []\<rparr>"

definition blob_cache :: CacheBase where
  "blob_cache =
     \<lparr>strategy = STATIC, cache_capacity = 8, batch_size = 4, running = True,
      cache = [\<lparr>data = [item 1 0],
                descs = map (\<lambda>i. \<lparr>ctrl = 1, index = i\<rparr>) [0 ..< 10],
                priority = - 1, data_num = 10\<rparr>],
      batcher = []\<rparr>"

definition blob_package :: Package where
  "blob_package =
     \<lparr>data = [\<lparr>payload = 10, desc = None\<rparr>],
      descs = map (\<lambda>i. \<lparr>ctrl = 1, index = i\<rparr>) [0 ..< 10],
      priority = - 1, data_num = 10\<rparr>"

definition lone_cache :: CacheBase where
  "lone_cache =
     \<lparr>strategy = DYNAMIC, cache_capacity = 8, batch_size = 1, running = True,
      cache = [\<lparr>data = [item 1 0], descs = [], priority = - 1, data_num = 1\<rparr>],
      batcher = []\<rparr>"

definition dyn_cache :: CacheBase where
  "dyn_cache =
     \<lparr>strategy = DYNAMIC, cache_capacity = 8, batch_size = 2, running = True,
      cache = [\<lparr>data = [item 1 0, item 2 0], descs = [], priority = - 1, data_num = 2\<rparr>,
               \<lparr>data = [item 3 0], descs = [], priority = - 3, data_num = 1\<rparr>],
      batcher = []\<rparr>"

definition two_requests :: CacheBase where
  "two_requests =
     \<lparr>strategy = STATIC, cache_capacity = 8, batch_size = 2, running = True,
      cache = [\<lparr>data = [item 2 0, item 2 1],
                descs = [\<lparr>ctrl = 2, index = 0\<rparr>, \<lparr>ctrl = 2, index = 1\<rparr>],
                priority = - 2, data_num = 2\<rparr>,
               \<lparr>data = [item 1 0], descs = [\<lparr>ctrl = 1, index = 0\<rparr>],
                priority = - 1, data_num = 1\<rparr>],
      batcher = []\<rparr>"

text \<open>
  The size bound on the queue: a dynamic package holds at most \<open>batch_size\<close> items and
  the batcher fewer than that; a static package has at most \<open>batch_size\<close> descs.
\<close>

definition size_ok :: "CacheBase \<Rightarrow> bool" where
  "size_ok st =
     (case strategy st of
        DYNAMIC \<Rightarrow> list_all (\<lambda>p. length (data p) \<le> BatchSize st) (cache st) \<and>
                   length (batcher st) < BatchSize st
      | STATIC \<Rightarrow> list_all (\<lambda>p. length (descs p) \<le> BatchSize st) (cache st))"

text \<open>A continuous blob that announces more items than a batch holds.\<close>

definition oversized_blob :: "nat \<Rightarrow> Package \<Rightarrow> bool" where
  "oversized_blob bs pack \<longleftrightarrow> length (data pack) = 1 \<and> data_num pack \<noteq> 1 \<and> bs < data_num pack"

text \<open>
  The states a cache goes through: created, started and stopped, given packages, asked
  for packages, and, under the dynamic strategy, flushed by the batcher's timer.
\<close>

inductive reachable :: "CacheBase \<Rightarrow> bool" where
  created: "reachable (CacheBase_new strat capacity bs)"
| started: "reachable st \<Longrightarrow> reachable (Start st)"
| stopped: "reachable st \<Longrightarrow> Stop Get Rid st = Inr st' \<Longrightarrow> reachable st'"
| pushed: "reachable st \<Longrightarrow> Push Get Rid st (Some pack) = Inr (b, st') \<Longrightarrow> reachable st'"
| popped: "reachable st \<Longrightarrow> Pop D st = Inr (r, st', es) \<Longrightarrow> reachable st'"
| flushed: "reachable st \<Longrightarrow> strategy st = DYNAMIC \<Longrightarrow> Emit Get Rid st = Inr st' \<Longrightarrow>
            reachable st'"

text \<open>
  The states of a cache in service: as \<open>reachable\<close>, with every pushed package holding
  the items of a single request, which is what \<open>Session::Send\<close> hands to the cache.
\<close>

inductive served :: "CacheBase \<Rightarrow> bool" where
  created: "served (CacheBase_new strat capacity bs)"
| started: "served st \<Longrightarrow> served (Start st)"
| stopped: "served st \<Longrightarrow> Stop Get Rid st = Inr st' \<Longrightarrow> served st'"
| pushed: "served st \<Longrightarrow> one_request pack \<Longrightarrow> Push Get Rid st (Some pack) = Inr (b, st') \<Longrightarrow>
           served st'"
| popped: "served st \<Longrightarrow> Pop D st = Inr (r, st', es) \<Longrightarrow> served st'"
| flushed: "served st \<Longrightarrow> strategy st = DYNAMIC \<Longrightarrow> Emit Get Rid st = Inr st' \<Longrightarrow>
            served st'"

section \<open>Properties of the TaskNode\<close>

lemma tail_notify_from:
  "length (descs pack) \<le> length (data pack) \<Longrightarrow>
   tail_notify pack idx =
     Inr (map (\<lambda>i. ProcessDone (ctrl (descs pack ! i)) SUCCESS (data pack ! i)
                     (index (descs pack ! i)))
            [idx ..< length (descs pack)])"
proof (induction pack idx rule: tail_notify.induct)
  case (1 pack idx)
  show ?case
  proof (cases "idx < length (descs pack)")
    case True
    with "1.prems" have d: "idx < length (data pack)" by simp
    from "1.IH" [OF True d "1.prems"] True d show ?thesis
      by (subst tail_notify.simps) (simp add: upt_conv_Cons)
  next
    case False
    then show ?thesis by (subst tail_notify.simps) simp
  qed
qed

text \<open>
  C4.  A node whose processor returned \<open>SUCCESS\<close>: without a \<open>downnode\<close> it calls
  \<open>ProcessDone\<close> once per desc, in order, with \<open>SUCCESS\<close>, the data element at the desc's
  position and the desc's own index, and then the done notifier once, and nothing else;
  with a \<open>downnode\<close> its only action is to push the package, its priority replaced by
  \<open>Priority::Next\<close> of it, to the thread pool for that node.  Reading \<open>data[idx]\<close>
  needs the package to hold at least as many data elements as descs.
\<close>

theorem TaskNode_success_transmits:
  assumes "Process pack = (SUCCESS, p)"
  shows "(downnode node = None \<and> length (descs p) \<le> length (data p) \<longrightarrow>
            TaskNode_call Next Process node pack =
              Inr (map (\<lambda>i. ProcessDone (ctrl (descs p ! i)) SUCCESS (data p ! i)
                              (index (descs p ! i))) [0 ..< length (descs p)]
                   @ [DoneNotifier]))
       \<and> (\<forall>dn. downnode node = Some dn \<longrightarrow>
            TaskNode_call Next Process node pack =
              Inr [VoidPush (Next (priority p)) dn (p\<lparr>priority := Next (priority p)\<rparr>)])"
  using assms
  by (simp add: TaskNode_call_def Transmit_def tail_notify_from Let_def)

theorem TaskNode_success_transmits_witness:
  "TaskNode_call (\<lambda>x. x + 1) (\<lambda>p. (SUCCESS, p)) \<lparr>processor = 0, downnode = None\<rparr>
     \<lparr>data = [\<lparr>payload = 7, desc = None\<rparr>, \<lparr>payload = 8, desc = None\<rparr>],
      descs = [\<lparr>ctrl = 1, index = 0\<rparr>, \<lparr>ctrl = 2, index = 5\<rparr>],
      priority = 3, data_num = 2\<rparr>
   = Inr [ProcessDone 1 SUCCESS \<lparr>payload = 7, desc = None\<rparr> 0,
          ProcessDone 2 SUCCESS \<lparr>payload = 8, desc = None\<rparr> 5,
          DoneNotifier]
  \<and> TaskNode_call (\<lambda>x. x + 1) (\<lambda>p. (SUCCESS, p)) \<lparr>processor = 0, downnode = Some 4\<rparr>
     \<lparr>data = [], descs = [], priority = 3, data_num = 0\<rparr>
   = Inr [VoidPush 4 4 \<lparr>data = [], descs = [], priority = 4, data_num = 0\<rparr>]"
  using
    TaskNode_success_transmits [of "\<lambda>p. (SUCCESS, p)"
      "\<lparr>data = [\<lparr>payload = 7, desc = None\<rparr>, \<lparr>payload = 8, desc = None\<rparr>],
        descs = [\<lparr>ctrl = 1, index = 0\<rparr>, \<lparr>ctrl = 2, index = 5\<rparr>],
        priority = 3, data_num = 2\<rparr>" _ "\<lparr>processor = 0, downnode = None\<rparr>" "\<lambda>x. x + 1"]
    TaskNode_success_transmits [of "\<lambda>p. (SUCCESS, p)"
      "\<lparr>data = [], descs = [], priority = 3, data_num = 0\<rparr>" _
      "\<lparr>processor = 0, downnode = Some 4\<rparr>" "\<lambda>x. x + 1"]
  by (simp add: upt_conv_Cons)

text \<open>
  C5.  A node whose processor returned a status other than \<open>SUCCESS\<close> calls
  \<open>ProcessFailed\<close> with that status once for every desc of the package, in order, and
  does nothing else: no \<open>ProcessDone\<close>, no done notifier, no push to the thread pool.
\<close>

theorem TaskNode_failure_routes:
  assumes "Process pack = (s, p)" and "s \<noteq> SUCCESS"
  shows "\<exists>es. TaskNode_call Next Process node pack = Inr es \<and>
           length es = length (descs p) \<and>
           (\<forall>i < length (descs p). es ! i = ProcessFailed (ctrl (descs p ! i)) s) \<and>
           \<not> list_ex is_forward es"
proof -
  have a: "TaskNode_call Next Process node pack = Inr (notify_failed s (descs p))"
    using assms by (simp add: TaskNode_call_def)
  have b: "notify_failed s ds = map (\<lambda>it. ProcessFailed (ctrl it) s) ds" for ds
    by (induction ds) simp_all
  have c: "\<not> list_ex is_forward (notify_failed s ds)" for ds
    by (induction ds) simp_all
  from a b c show ?thesis by simp
qed

theorem TaskNode_failure_routes_witness:
  "ERROR_BACKEND \<noteq> SUCCESS
   \<and> (\<exists>es. TaskNode_call (\<lambda>x. x + 1) (\<lambda>p. (ERROR_BACKEND, p))
              \<lparr>processor = 0, downnode = Some 4\<rparr>
              \<lparr>data = [\<lparr>payload = 7, desc = None\<rparr>],
               descs = [\<lparr>ctrl = 1, index = 0\<rparr>, \<lparr>ctrl = 2, index = 1\<rparr>],
               priority = 3, data_num = 2\<rparr> = Inr es
          \<and> length es = 2 \<and> es ! 0 = ProcessFailed 1 ERROR_BACKEND
          \<and> es ! 1 = ProcessFailed 2 ERROR_BACKEND \<and> \<not> list_ex is_forward es)"
proof -
  let ?p = "\<lparr>data = [\<lparr>payload = 7, desc = None\<rparr>],
             descs = [\<lparr>ctrl = 1, index = 0\<rparr>, \<lparr>ctrl = 2, index = 1\<rparr>],
             priority = 3, data_num = 2\<rparr>"
  have b: "ERROR_BACKEND \<noteq> SUCCESS" by simp
  from TaskNode_failure_routes [of "\<lambda>p. (ERROR_BACKEND, p)" ?p ERROR_BACKEND ?p
      "\<lambda>x. x + 1" "\<lparr>processor = 0, downnode = Some 4\<rparr>"]
  obtain es where e: "TaskNode_call (\<lambda>x. x + 1) (\<lambda>p. (ERROR_BACKEND, p))
              \<lparr>processor = 0, downnode = Some 4\<rparr> ?p = Inr es"
    "length es = 2"
    "\<forall>i < 2. es ! i = ProcessFailed (ctrl ([\<lparr>ctrl = 1, index = 0\<rparr>, \<lparr>ctrl = 2, index = 1\<rparr>] ! i))
                       ERROR_BACKEND"
    "\<not> list_ex is_forward es"
    by auto
  from e(3) [rule_format, of 0] e(3) [rule_format, of 1]
  have "es ! 0 = ProcessFailed 1 ERROR_BACKEND" "es ! 1 = ProcessFailed 2 ERROR_BACKEND"
    by simp_all
  with e b show ?thesis by blast
qed

section \<open>Properties of the facade\<close>

text \<open>
  C7.  A sync session, a timeout of 1 ms, a cache that is not full, a request whose
  callback never runs: half a millisecond has passed when the cache wait returns, less
  than 1 ms of the timeout is left, and \<open>RequestSync\<close> returns false with status
  \<open>TIMEOUT\<close>; nothing has been sent and no control discarded.  And with 5 ms, of which
  2 ms have passed, and a \<open>Send\<close> that returns null, it returns false and leaves the
  status as it was.
\<close>

theorem RequestSync_not_sent_counterexample:
  "RequestSync (Some (a_session True)) (Some a_package) (Some SUCCESS) (Some fresh_Package) 1
     True (1 / 2) (Some 3) None
   = Inr (Returned False, TIMEOUT, fresh_Package, [])
   \<and> RequestSync (Some (a_session True)) (Some a_package) (Some SUCCESS) (Some fresh_Package) 5
     True 2 None None
   = Inr (Returned False, SUCCESS, fresh_Package, [Send a_package])"
  by (simp add: RequestSync_def trunc_int_def a_session_def Let_def)

text \<open>
  C7, as the code has it.  \<open>RequestSync\<close> on a sync session with a positive timeout,
  all pointers non-null.  If \<open>WaitIfCacheFull\<close> times out, or if it succeeds but less
  than 1 ms of the timeout is left after it, the call sets the status to \<open>TIMEOUT\<close> and
  returns false, and nothing has been sent.  Otherwise the request is sent.  If \<open>Send\<close>
  gives no control, the call returns false and leaves the status as it was.  If the
  callback has not fulfilled the future within the time that is left, the call discards
  the control, sets the status to \<open>TIMEOUT\<close> and returns true.  If the callback has, the
  call returns true with the callback's status and data.
\<close>

theorem RequestSync_timeout_cases:
  assumes "0 < timeout" and "sync_link sess"
  shows "(\<not> wait_ok \<longrightarrow>
            RequestSync (Some sess) (Some inp) (Some st) (Some out) timeout wait_ok wait_time
              sent fulfilled
            = Inr (Returned False, TIMEOUT, out, []))
       \<and> (wait_ok \<and> trunc_int (real_of_int timeout - wait_time) < 1 \<longrightarrow>
            RequestSync (Some sess) (Some inp) (Some st) (Some out) timeout wait_ok wait_time
              sent fulfilled
            = Inr (Returned False, TIMEOUT, out, []))
       \<and> (wait_ok \<and> 1 \<le> trunc_int (real_of_int timeout - wait_time) \<and> sent = None \<longrightarrow>
            RequestSync (Some sess) (Some inp) (Some st) (Some out) timeout wait_ok wait_time
              sent fulfilled
            = Inr (Returned False, st, out, [Send inp]))
       \<and> (wait_ok \<and> 1 \<le> trunc_int (real_of_int timeout - wait_time) \<and> sent = Some c \<and>
          fulfilled = None \<longrightarrow>
            RequestSync (Some sess) (Some inp) (Some st) (Some out) timeout wait_ok wait_time
              sent fulfilled
            = Inr (Returned True, TIMEOUT, out, [Send inp, Discard c]))
       \<and> (wait_ok \<and> 1 \<le> trunc_int (real_of_int timeout - wait_time) \<and> sent = Some c \<and>
          fulfilled = Some (s, d) \<longrightarrow>
            RequestSync (Some sess) (Some inp) (Some st) (Some out) timeout wait_ok wait_time
              sent fulfilled
            = Inr (Returned True, s, d, [Send inp]))"
  using assms by (simp add: RequestSync_def Let_def)

theorem RequestSync_timeout_cases_witness:
  "RequestSync (Some (a_session True)) (Some a_package) (Some SUCCESS) (Some fresh_Package) 5
     False 5 None None
   = Inr (Returned False, TIMEOUT, fresh_Package, [])
  \<and> RequestSync (Some (a_session True)) (Some a_package) (Some SUCCESS) (Some fresh_Package) 1
     True (1 / 2) (Some 3) None
   = Inr (Returned False, TIMEOUT, fresh_Package, [])
  \<and> RequestSync (Some (a_session True)) (Some a_package) (Some SUCCESS) (Some fresh_Package) 5
     True 2 None None
   = Inr (Returned False, SUCCESS, fresh_Package, [Send a_package])
  \<and> RequestSync (Some (a_session True)) (Some a_package) (Some SUCCESS) (Some fresh_Package) 5
     True 2 (Some 3) None
   = Inr (Returned True, TIMEOUT, fresh_Package, [Send a_package, Discard 3])
  \<and> RequestSync (Some (a_session True)) (Some a_package) (Some TIMEOUT) (Some fresh_Package) 5
     True 2 (Some 3) (Some (SUCCESS, a_package))
   = Inr (Returned True, SUCCESS, a_package, [Send a_package])"
proof -
  have t: "(0::int) < 5" "(0::int) < 1" by simp_all
  have s: "sync_link (a_session True)" by (simp add: a_session_def)
  have r: "1 \<le> trunc_int (real_of_int 5 - 2)" "trunc_int (real_of_int 1 - 1 / 2) < 1"
    by (simp_all add: trunc_int_def)
  show ?thesis
    using
      RequestSync_timeout_cases [OF t(1) s, where wait_ok = False and wait_time = 5
        and sent = None and fulfilled = None and inp = a_package and st = SUCCESS
        and out = fresh_Package]
      RequestSync_timeout_cases [OF t(2) s, where wait_ok = True and wait_time = "1 / 2"
        and sent = "Some 3" and fulfilled = None and inp = a_package and st = SUCCESS
        and out = fresh_Package]
      RequestSync_timeout_cases [OF t(1) s, where wait_ok = True and wait_time = 2
        and sent = None and fulfilled = None and inp = a_package and st = SUCCESS
        and out = fresh_Package]
      RequestSync_timeout_cases [OF t(1) s, where wait_ok = True and wait_time = 2
        and sent = "Some 3" and c = 3 and fulfilled = None and inp = a_package
        and st = SUCCESS and out = fresh_Package]
      RequestSync_timeout_cases [OF t(1) s, where wait_ok = True and wait_time = 2
        and sent = "Some 3" and c = 3 and fulfilled = "Some (SUCCESS, a_package)"
        and s = SUCCESS and d = a_package and inp = a_package and st = TIMEOUT
        and out = fresh_Package]
      r
    by simp
qed

subsection \<open>The server invariant\<close>

lemma srv_inv_new: "srv_inv (InferServerPrivate_new tp)"
  by (simp add: srv_inv_def InferServerPrivate_new_def)

lemma inv_fresh_executor: "srv_inv srv \<Longrightarrow> executors srv (next_addr srv) = None"
  unfolding srv_inv_def by (metis less_irrefl option.exhaust)

lemma inv_fresh_session: "srv_inv srv \<Longrightarrow> sessions srv (next_addr srv) = None"
  unfolding srv_inv_def by (metis less_irrefl option.exhaust)

lemma CreateExecutor_result:
  assumes "CreateExecutor T n srv d = Inr (r, srv1)"
  shows "\<exists>m pre post. model d = Some m \<and> preproc d = Some pre \<and> postproc d = Some post \<and>
      ((\<exists>e. executor_map srv (executor_name m pre post) = Some e \<and> r = Some e \<and> srv1 = srv)
       \<or> (executor_map srv (executor_name m pre post) = None \<and> T d \<and> r = None \<and> srv1 = srv)
       \<or> (executor_map srv (executor_name m pre post) = None \<and> \<not> T d \<and> r = Some (next_addr srv) \<and>
            executor_map srv1 = (executor_map srv)(executor_name m pre post \<mapsto> next_addr srv) \<and>
            executors srv1 = (executors srv)(next_addr srv \<mapsto>
               \<lparr>exec_name = executor_name m pre post, exec_engine_num = engine_num d, linked = []\<rparr>) \<and>
            sessions srv1 = sessions srv \<and> next_addr srv1 = Suc (next_addr srv)))"
  using assms
  by (auto simp: CreateExecutor_def Let_def split: option.splits if_splits)

lemma srv_inv_new_executor:
  assumes "srv_inv srv" and a: "executor_map srv nm = None"
      "executor_map srv1 = (executor_map srv)(nm \<mapsto> next_addr srv)"
      "executors srv1 = (executors srv)(next_addr srv \<mapsto>
               \<lparr>exec_name = nm, exec_engine_num = k, linked = []\<rparr>)"
      "sessions srv1 = sessions srv" "next_addr srv1 = Suc (next_addr srv)"
  shows "(\<forall>e ex. executors srv1 e = Some ex \<longrightarrow>
        executor_map srv1 (exec_name ex) = Some e \<and> e < next_addr srv1) \<and>
     (\<forall>nm e. executor_map srv1 nm = Some e \<longrightarrow> (\<exists>ex. executors srv1 e = Some ex \<and> exec_name ex = nm)) \<and>
     (\<forall>s sess. sessions srv1 s = Some sess \<longrightarrow> s < next_addr srv1 \<and>
        (\<exists>ex. executors srv1 (executor sess) = Some ex \<and>
           (executors srv (executor sess) = Some ex) \<and> s \<in> set (linked ex)))"
proof (intro conjI allI impI)
  have fresh: "executors srv (next_addr srv) = None"
    using assms(1) by (rule inv_fresh_executor)
  { fix e ex assume h: "executors srv1 e = Some ex"
    show "executor_map srv1 (exec_name ex) = Some e"
    proof (cases "e = next_addr srv")
      case True with h a show ?thesis by auto
    next
      case False
      with h a have "executors srv e = Some ex" by simp
      with assms(1) have "executor_map srv (exec_name ex) = Some e" by (simp add: srv_inv_def)
      with a show ?thesis by auto
    qed
    show "e < next_addr srv1"
    proof (cases "e = next_addr srv")
      case True with a show ?thesis by simp
    next
      case False
      with h a have "executors srv e = Some ex" by simp
      with assms(1) have "e < next_addr srv" by (simp add: srv_inv_def)
      with a show ?thesis by simp
    qed }
  { fix nm' e assume h: "executor_map srv1 nm' = Some e"
    show "\<exists>ex. executors srv1 e = Some ex \<and> exec_name ex = nm'"
    proof (cases "nm' = nm")
      case True with h a show ?thesis by simp
    next
      case False
      with h a have "executor_map srv nm' = Some e" by simp
      with assms(1) obtain ex where "executors srv e = Some ex" "exec_name ex = nm'"
        unfolding srv_inv_def by blast
      with fresh a show ?thesis by auto
    qed }
  { fix s sess assume h: "sessions srv1 s = Some sess"
    with a have h': "sessions srv s = Some sess" by simp
    with assms(1) have "s < next_addr srv" unfolding srv_inv_def by blast
    with a show "s < next_addr srv1" by simp
    from h' assms(1) obtain ex where "executors srv (executor sess) = Some ex" "s \<in> set (linked ex)"
      unfolding srv_inv_def by blast
    with fresh a show "\<exists>ex. executors srv1 (executor sess) = Some ex \<and>
           (executors srv (executor sess) = Some ex) \<and> s \<in> set (linked ex)" by auto }
qed

lemma CreateExecutor_inv:
  assumes "CreateExecutor T n srv d = Inr (r, srv1)" and "srv_inv srv"
  shows "srv_inv srv1"
proof -
  from CreateExecutor_result [OF assms(1)] obtain m pre post where
    c: "(\<exists>e. executor_map srv (executor_name m pre post) = Some e \<and> r = Some e \<and> srv1 = srv)
       \<or> (executor_map srv (executor_name m pre post) = None \<and> T d \<and> r = None \<and> srv1 = srv)
       \<or> (executor_map srv (executor_name m pre post) = None \<and> \<not> T d \<and> r = Some (next_addr srv) \<and>
            executor_map srv1 = (executor_map srv)(executor_name m pre post \<mapsto> next_addr srv) \<and>
            executors srv1 = (executors srv)(next_addr srv \<mapsto>
               \<lparr>exec_name = executor_name m pre post, exec_engine_num = engine_num d, linked = []\<rparr>) \<and>
            sessions srv1 = sessions srv \<and> next_addr srv1 = Suc (next_addr srv))"
    by blast
  then show ?thesis
  proof (elim disjE)
    assume "\<exists>e. executor_map srv (executor_name m pre post) = Some e \<and> r = Some e \<and> srv1 = srv"
    with assms(2) show ?thesis by auto
  next
    assume "executor_map srv (executor_name m pre post) = None \<and> T d \<and> r = None \<and> srv1 = srv"
    with assms(2) show ?thesis by auto
  next
    assume n: "executor_map srv (executor_name m pre post) = None \<and> \<not> T d \<and> r = Some (next_addr srv) \<and>
            executor_map srv1 = (executor_map srv)(executor_name m pre post \<mapsto> next_addr srv) \<and>
            executors srv1 = (executors srv)(next_addr srv \<mapsto>
               \<lparr>exec_name = executor_name m pre post, exec_engine_num = engine_num d, linked = []\<rparr>) \<and>
            sessions srv1 = sessions srv \<and> next_addr srv1 = Suc (next_addr srv)"
    have "(\<forall>e ex. executors srv1 e = Some ex \<longrightarrow>
        executor_map srv1 (exec_name ex) = Some e \<and> e < next_addr srv1) \<and>
     (\<forall>nm e. executor_map srv1 nm = Some e \<longrightarrow> (\<exists>ex. executors srv1 e = Some ex \<and> exec_name ex = nm)) \<and>
     (\<forall>s sess. sessions srv1 s = Some sess \<longrightarrow> s < next_addr srv1 \<and>
        (\<exists>ex. executors srv1 (executor sess) = Some ex \<and>
           (executors srv (executor sess) = Some ex) \<and> s \<in> set (linked ex)))"
      by (rule srv_inv_new_executor [OF assms(2)]) (use n in simp_all)
    then show ?thesis unfolding srv_inv_def by blast
  qed
qed

lemma CreateSession_result:
  assumes "CreateSession T n srv d obs = Inr (r, srv2)"
  shows "model d \<noteq> None \<and> preproc d \<noteq> None \<and>
     (\<exists>re srv1. CreateExecutor T n srv
          (if postproc d = None then d\<lparr>postproc := Some Postprocessor\<rparr> else d) = Inr (re, srv1) \<and>
        ((re = None \<and> r = None \<and> srv2 = srv1) \<or>
         (\<exists>e ex. re = Some e \<and> executors srv1 e = Some ex \<and> r = Some (next_addr srv1) \<and>
                  srv2 = link_session srv1 e ex
                    \<lparr>sess_name = name d, executor = e, sync_link = (obs = None),
                     observer = obs\<rparr>)))"
  using assms
  by (auto simp: CreateSession_def Let_def link_session_def split: option.splits if_splits sum.splits)

lemma link_session_inv:
  assumes "srv_inv srv" and ex: "executors srv e = Some ex" and se: "executor sess = e"
  shows "srv_inv (link_session srv e ex sess)"
proof -
  let ?s = "link_session srv e ex sess"
  have fs: "sessions srv (next_addr srv) = None" using assms(1) by (rule inv_fresh_session)
  have f1: "executors ?s a = (if a = e then Some (Link ex (next_addr srv)) else executors srv a)" for a
    by (simp add: link_session_def)
  have f2: "executor_map ?s = executor_map srv" by (simp add: link_session_def)
  have f3: "sessions ?s a = (if a = next_addr srv then Some sess else sessions srv a)" for a
    by (simp add: link_session_def)
  have f4: "next_addr ?s = Suc (next_addr srv)" by (simp add: link_session_def)
  have nm: "exec_name (Link ex k) = exec_name ex" for k by (simp add: Link_def)
  have lk: "set (linked (Link ex k)) = insert k (set (linked ex))" for k by (simp add: Link_def)
  show ?thesis
    unfolding srv_inv_def
  proof (intro conjI allI impI)
    fix a x assume h: "executors ?s a = Some x"
    show "executor_map ?s (exec_name x) = Some a"
    proof (cases "a = e")
      case True
      with h f1 have "x = Link ex (next_addr srv)" by simp
      with True ex assms(1) f2 nm show ?thesis by (simp add: srv_inv_def)
    next
      case False
      with h f1 have "executors srv a = Some x" by simp
      with assms(1) f2 show ?thesis by (simp add: srv_inv_def)
    qed
    show "a < next_addr ?s"
    proof (cases "a = e")
      case True
      with ex assms(1) have "a < next_addr srv" unfolding srv_inv_def by blast
      with f4 show ?thesis by simp
    next
      case False
      with h f1 have "executors srv a = Some x" by simp
      with assms(1) have "a < next_addr srv" unfolding srv_inv_def by blast
      with f4 show ?thesis by simp
    qed
  next
    fix nm' a assume "executor_map ?s nm' = Some a"
    with f2 have "executor_map srv nm' = Some a" by simp
    with assms(1) obtain x where x: "executors srv a = Some x" "exec_name x = nm'"
      unfolding srv_inv_def by blast
    show "\<exists>x. executors ?s a = Some x \<and> exec_name x = nm'"
    proof (cases "a = e")
      case True
      with x ex have "x = ex" by simp
      with True x f1 nm show ?thesis by simp
    next
      case False
      with x f1 show ?thesis by simp
    qed
  next
    fix a x assume h: "sessions ?s a = Some x"
    show "a < next_addr ?s"
    proof (cases "a = next_addr srv")
      case True with f4 show ?thesis by simp
    next
      case False
      with h f3 have "sessions srv a = Some x" by simp
      with assms(1) have "a < next_addr srv" unfolding srv_inv_def by blast
      with f4 show ?thesis by simp
    qed
    show "\<exists>y. executors ?s (executor x) = Some y \<and> a \<in> set (linked y)"
    proof (cases "a = next_addr srv")
      case True
      with h f3 have "x = sess" by simp
      with se True f1 lk show ?thesis by simp
    next
      case False
      with h f3 have "sessions srv a = Some x" by simp
      with assms(1) obtain y where y: "executors srv (executor x) = Some y" "a \<in> set (linked y)"
        unfolding srv_inv_def by blast
      show ?thesis
      proof (cases "executor x = e")
        case True
        with y ex have "y = ex" by simp
        with True y f1 lk show ?thesis by simp
      next
        case False
        with y f1 show ?thesis by simp
      qed
    qed
  qed
qed

lemma CreateSession_inv:
  assumes "CreateSession T n srv d obs = Inr (r, srv2)" and "srv_inv srv"
  shows "srv_inv srv2"
proof -
  from CreateSession_result [OF assms(1)] obtain re srv1 where
    ce: "CreateExecutor T n srv
          (if postproc d = None then d\<lparr>postproc := Some Postprocessor\<rparr> else d) = Inr (re, srv1)"
    and c: "(re = None \<and> r = None \<and> srv2 = srv1) \<or>
         (\<exists>e ex. re = Some e \<and> executors srv1 e = Some ex \<and> r = Some (next_addr srv1) \<and>
                  srv2 = link_session srv1 e ex
                    \<lparr>sess_name = name d, executor = e, sync_link = (obs = None),
                     observer = obs\<rparr>)"
    by blast
  have i1: "srv_inv srv1" using ce assms(2) by (rule CreateExecutor_inv)
  from c show ?thesis
  proof
    assume "re = None \<and> r = None \<and> srv2 = srv1" with i1 show ?thesis by simp
  next
    assume "\<exists>e ex. re = Some e \<and> executors srv1 e = Some ex \<and> r = Some (next_addr srv1) \<and>
                  srv2 = link_session srv1 e ex
                    \<lparr>sess_name = name d, executor = e, sync_link = (obs = None),
                     observer = obs\<rparr>"
    then obtain e ex where "executors srv1 e = Some ex"
      "srv2 = link_session srv1 e ex
          \<lparr>sess_name = name d, executor = e, sync_link = (obs = None), observer = obs\<rparr>"
      by blast
    with i1 show ?thesis by (simp add: link_session_inv)
  qed
qed

lemma DestroySession_result:
  assumes "DestroySession idle srv (Some s) = Inr (b, srv1)"
  shows "\<exists>sess ex. sessions srv s = Some sess \<and> executors srv (executor sess) = Some ex \<and>
     ((executor_map srv (exec_name ex) = None \<and> srv1 = srv) \<or>
      (sessions srv1 = (sessions srv)(s := None) \<and> next_addr srv1 = next_addr srv \<and>
        ((removeAll s (linked ex) \<noteq> [] \<and>
          executors srv1 = (executors srv)(executor sess \<mapsto> Unlink ex s) \<and>
          executor_map srv1 = executor_map srv) \<or>
         (removeAll s (linked ex) = [] \<and>
          executors srv1 = (executors srv)(executor sess := None) \<and>
          executor_map srv1 = (executor_map srv)(exec_name ex := None)))))"
  using assms
  by (auto simp: DestroySession_def CheckAndDestroyExecutor_def Let_def GetSessionNum_def
        Unlink_def split: option.splits if_splits sum.splits)

lemma unlink_inv:
  assumes i: "srv_inv srv" and ex: "executors srv e = Some ex"
    and ne: "removeAll s (linked ex) \<noteq> []"
    and f1: "executors srv1 = (executors srv)(e \<mapsto> Unlink ex s)"
    and f2: "executor_map srv1 = executor_map srv"
    and f3: "sessions srv1 = (sessions srv)(s := None)"
    and f4: "next_addr srv1 = next_addr srv"
  shows "srv_inv srv1"
  unfolding srv_inv_def
proof (intro conjI allI impI)
  have nm: "exec_name (Unlink ex s) = exec_name ex" by (simp add: Unlink_def)
  have lk: "set (linked (Unlink ex s)) = set (linked ex) - {s}" by (auto simp: Unlink_def)
  { fix a x assume h: "executors srv1 a = Some x"
    have "\<exists>y. executors srv a = Some y \<and> exec_name y = exec_name x"
    proof (cases "a = e")
      case True with h f1 ex nm show ?thesis by simp
    next
      case False with h f1 show ?thesis by simp
    qed
    then obtain y where y: "executors srv a = Some y" "exec_name y = exec_name x" by blast
    with i have "executor_map srv (exec_name y) = Some a" "a < next_addr srv"
      unfolding srv_inv_def by blast+
    with y f2 f4 show "executor_map srv1 (exec_name x) = Some a" "a < next_addr srv1" by simp_all }
  { fix nm' a assume "executor_map srv1 nm' = Some a"
    with f2 have "executor_map srv nm' = Some a" by simp
    with i obtain x where x: "executors srv a = Some x" "exec_name x = nm'"
      unfolding srv_inv_def by blast
    show "\<exists>x. executors srv1 a = Some x \<and> exec_name x = nm'"
    proof (cases "a = e")
      case True
      with x ex have "x = ex" by simp
      with True x f1 nm show ?thesis by simp
    next
      case False with x f1 show ?thesis by simp
    qed }
  { fix a x assume h: "sessions srv1 a = Some x"
    with f3 have as: "a \<noteq> s" and h': "sessions srv a = Some x" by (auto split: if_splits)
    from h' i have "a < next_addr srv" unfolding srv_inv_def by blast
    with f4 show "a < next_addr srv1" by simp
    from h' i obtain y where y: "executors srv (executor x) = Some y" "a \<in> set (linked y)"
      unfolding srv_inv_def by blast
    show "\<exists>y. executors srv1 (executor x) = Some y \<and> a \<in> set (linked y)"
    proof (cases "executor x = e")
      case True
      with y ex have "y = ex" by simp
      with True y f1 lk as show ?thesis by simp
    next
      case False with y f1 show ?thesis by simp
    qed }
qed

lemma delete_inv:
  assumes i: "srv_inv srv" and ex: "executors srv e = Some ex"
    and ne: "removeAll s (linked ex) = []"
    and f1: "executors srv1 = (executors srv)(e := None)"
    and f2: "executor_map srv1 = (executor_map srv)(exec_name ex := None)"
    and f3: "sessions srv1 = (sessions srv)(s := None)"
    and f4: "next_addr srv1 = next_addr srv"
  shows "srv_inv srv1"
  unfolding srv_inv_def
proof (intro conjI allI impI)
  from i ex have me: "executor_map srv (exec_name ex) = Some e" unfolding srv_inv_def by blast
  { fix a x assume h: "executors srv1 a = Some x"
    with f1 have ae: "a \<noteq> e" and h': "executors srv a = Some x" by (auto split: if_splits)
    from h' i have m: "executor_map srv (exec_name x) = Some a" and "a < next_addr srv"
      unfolding srv_inv_def by blast+
    with f4 show "a < next_addr srv1" by simp
    from m me ae have "exec_name x \<noteq> exec_name ex" by auto
    with m f2 show "executor_map srv1 (exec_name x) = Some a" by simp }
  { fix nm' a assume h: "executor_map srv1 nm' = Some a"
    with f2 have nn: "nm' \<noteq> exec_name ex" and h': "executor_map srv nm' = Some a"
      by (auto split: if_splits)
    from h' i obtain x where x: "executors srv a = Some x" "exec_name x = nm'"
      unfolding srv_inv_def by blast
    with ex nn have "a \<noteq> e" by auto
    with x f1 show "\<exists>x. executors srv1 a = Some x \<and> exec_name x = nm'" by simp }
  { fix a x assume h: "sessions srv1 a = Some x"
    with f3 have as: "a \<noteq> s" and h': "sessions srv a = Some x" by (auto split: if_splits)
    from h' i have "a < next_addr srv" unfolding srv_inv_def by blast
    with f4 show "a < next_addr srv1" by simp
    from h' i obtain y where y: "executors srv (executor x) = Some y" "a \<in> set (linked y)"
      unfolding srv_inv_def by blast
    have "executor x \<noteq> e"
    proof
      assume "executor x = e"
      with y ex have "a \<in> set (linked ex)" by simp
      with as have "a \<in> set (removeAll s (linked ex))" by simp
      with ne show False by simp
    qed
    with y f1 show "\<exists>y. executors srv1 (executor x) = Some y \<and> a \<in> set (linked y)" by simp }
qed

lemma DestroySession_inv:
  assumes "DestroySession idle srv (Some s) = Inr (b, srv1)" and "srv_inv srv"
  shows "srv_inv srv1"
proof -
  from DestroySession_result [OF assms(1)] obtain sess ex where
    "sessions srv s = Some sess" and
    ex: "executors srv (executor sess) = Some ex" and
    c: "(executor_map srv (exec_name ex) = None \<and> srv1 = srv) \<or>
      (sessions srv1 = (sessions srv)(s := None) \<and> next_addr srv1 = next_addr srv \<and>
        ((removeAll s (linked ex) \<noteq> [] \<and>
          executors srv1 = (executors srv)(executor sess \<mapsto> Unlink ex s) \<and>
          executor_map srv1 = executor_map srv) \<or>
         (removeAll s (linked ex) = [] \<and>
          executors srv1 = (executors srv)(executor sess := None) \<and>
          executor_map srv1 = (executor_map srv)(exec_name ex := None))))"
    by blast
  from c show ?thesis
  proof (elim disjE conjE)
    assume "srv1 = srv" with assms(2) show ?thesis by simp
  next
    assume "removeAll s (linked ex) \<noteq> []"
      "executors srv1 = (executors srv)(executor sess \<mapsto> Unlink ex s)"
      "executor_map srv1 = executor_map srv"
      "sessions srv1 = (sessions srv)(s := None)" "next_addr srv1 = next_addr srv"
    with assms(2) ex show ?thesis by (rule unlink_inv)
  next
    assume "removeAll s (linked ex) = []"
      "executors srv1 = (executors srv)(executor sess := None)"
      "executor_map srv1 = (executor_map srv)(exec_name ex := None)"
      "sessions srv1 = (sessions srv)(s := None)" "next_addr srv1 = next_addr srv"
    with assms(2) ex show ?thesis by (rule delete_inv)
  qed
qed

lemma run_calls_inv:
  "srv_inv srv \<Longrightarrow> run_calls T n srv cs = Inr srv1 \<Longrightarrow> srv_inv srv1"
proof (induction cs arbitrary: srv)
  case Nil
  then show ?case by simp
next
  case (Cons c cs)
  show ?case
  proof (cases c)
    case (Create d obs)
    with Cons.prems obtain r srv' where
      s: "CreateSession T n srv d obs = Inr (r, srv')" and r: "run_calls T n srv' cs = Inr srv1"
      by (auto split: sum.splits)
    from s Cons.prems(1) have "srv_inv srv'" by (rule CreateSession_inv)
    then show ?thesis using r by (rule Cons.IH)
  next
    case (Destroy s idle)
    with Cons.prems obtain r srv' where
      s: "DestroySession idle srv (Some s) = Inr (r, srv')" and r: "run_calls T n srv' cs = Inr srv1"
      by (auto split: sum.splits)
    from s Cons.prems(1) have "srv_inv srv'" by (rule DestroySession_inv)
    then show ?thesis using r by (rule Cons.IH)
  qed
qed

lemma attached_bounds:
  assumes "srv_inv srv" and "attached srv s sess nm"
  shows "s < next_addr srv" and "executor sess < next_addr srv"
    and "executor_map srv nm = Some (executor sess)"
    and "\<exists>ex. executors srv (executor sess) = Some ex \<and> exec_name ex = nm \<and> s \<in> set (linked ex)"
proof -
  from assms(2) obtain ex where
    a: "sessions srv s = Some sess" "executors srv (executor sess) = Some ex" "exec_name ex = nm"
    unfolding attached_def by blast
  from assms(1) a(1) show "s < next_addr srv" unfolding srv_inv_def by blast
  from assms(1) a(2) show "executor sess < next_addr srv" unfolding srv_inv_def by blast
  from assms(1) a(2) a(3) show "executor_map srv nm = Some (executor sess)"
    unfolding srv_inv_def by blast
  from assms(1) a(1) obtain y where "executors srv (executor sess) = Some y" "s \<in> set (linked y)"
    unfolding srv_inv_def by blast
  with a show "\<exists>ex. executors srv (executor sess) = Some ex \<and> exec_name ex = nm \<and> s \<in> set (linked ex)"
    by simp
qed

lemma CreateExecutor_attached:
  assumes i: "srv_inv srv" and a: "attached srv s sess nm"
    and c: "CreateExecutor T n srv d = Inr (r, srv1)"
  shows "attached srv1 s sess nm"
proof -
  from attached_bounds(2) [OF i a] have b: "executor sess \<noteq> next_addr srv" by simp
  from CreateExecutor_result [OF c] obtain m pre post where
    "srv1 = srv \<or>
       (executors srv1 = (executors srv)(next_addr srv \<mapsto>
               \<lparr>exec_name = executor_name m pre post, exec_engine_num = engine_num d, linked = []\<rparr>) \<and>
        sessions srv1 = sessions srv)"
    by blast
  then show ?thesis
  proof
    assume "srv1 = srv" with a show ?thesis by simp
  next
    assume "executors srv1 = (executors srv)(next_addr srv \<mapsto>
               \<lparr>exec_name = executor_name m pre post, exec_engine_num = engine_num d, linked = []\<rparr>) \<and>
        sessions srv1 = sessions srv"
    with a b show ?thesis by (simp add: attached_def)
  qed
qed

lemma link_attached:
  assumes i: "srv_inv srv" and a: "attached srv s sess nm" and ex: "executors srv e = Some ex"
  shows "attached (link_session srv e ex sess') s sess nm"
proof -
  from attached_bounds(1) [OF i a] have b: "s \<noteq> next_addr srv" by simp
  from a obtain y where
    y: "sessions srv s = Some sess" "executors srv (executor sess) = Some y" "exec_name y = nm"
    unfolding attached_def by blast
  show ?thesis
  proof (cases "executor sess = e")
    case True
    with y ex have "y = ex" by simp
    with True y b show ?thesis by (simp add: attached_def link_session_def Link_def)
  next
    case False
    with y b show ?thesis by (simp add: attached_def link_session_def)
  qed
qed

lemma CreateSession_attached:
  assumes i: "srv_inv srv" and a: "attached srv s sess nm"
    and c: "CreateSession T n srv d obs = Inr (r, srv2)"
  shows "attached srv2 s sess nm"
proof -
  from CreateSession_result [OF c] obtain re srv1 where
    ce: "CreateExecutor T n srv
          (if postproc d = None then d\<lparr>postproc := Some Postprocessor\<rparr> else d) = Inr (re, srv1)"
    and k: "(re = None \<and> r = None \<and> srv2 = srv1) \<or>
         (\<exists>e ex. re = Some e \<and> executors srv1 e = Some ex \<and> r = Some (next_addr srv1) \<and>
                  srv2 = link_session srv1 e ex
                    \<lparr>sess_name = name d, executor = e, sync_link = (obs = None),
                     observer = obs\<rparr>)"
    by blast
  have i1: "srv_inv srv1" using ce i by (rule CreateExecutor_inv)
  have a1: "attached srv1 s sess nm" using i a ce by (rule CreateExecutor_attached)
  from k show ?thesis
  proof
    assume "re = None \<and> r = None \<and> srv2 = srv1" with a1 show ?thesis by simp
  next
    assume "\<exists>e ex. re = Some e \<and> executors srv1 e = Some ex \<and> r = Some (next_addr srv1) \<and>
                  srv2 = link_session srv1 e ex
                    \<lparr>sess_name = name d, executor = e, sync_link = (obs = None),
                     observer = obs\<rparr>"
    then obtain e ex where "executors srv1 e = Some ex"
      "srv2 = link_session srv1 e ex
          \<lparr>sess_name = name d, executor = e, sync_link = (obs = None), observer = obs\<rparr>"
      by blast
    with i1 a1 show ?thesis by (simp add: link_attached)
  qed
qed

lemma DestroySession_attached:
  assumes i: "srv_inv srv" and a: "attached srv s sess nm" and ne: "s' \<noteq> s"
    and c: "DestroySession idle srv (Some s') = Inr (b, srv1)"
  shows "attached srv1 s sess nm"
proof -
  from attached_bounds(4) [OF i a] obtain y where
    y: "executors srv (executor sess) = Some y" "exec_name y = nm" "s \<in> set (linked y)" by blast
  from a have ss: "sessions srv s = Some sess" by (simp add: attached_def)
  from DestroySession_result [OF c] obtain sess' ex where
    "sessions srv s' = Some sess'" and
    ex: "executors srv (executor sess') = Some ex" and
    k: "(executor_map srv (exec_name ex) = None \<and> srv1 = srv) \<or>
      (sessions srv1 = (sessions srv)(s' := None) \<and> next_addr srv1 = next_addr srv \<and>
        ((removeAll s' (linked ex) \<noteq> [] \<and>
          executors srv1 = (executors srv)(executor sess' \<mapsto> Unlink ex s') \<and>
          executor_map srv1 = executor_map srv) \<or>
         (removeAll s' (linked ex) = [] \<and>
          executors srv1 = (executors srv)(executor sess' := None) \<and>
          executor_map srv1 = (executor_map srv)(exec_name ex := None))))"
    by blast
  from k show ?thesis
  proof (elim disjE conjE)
    assume "srv1 = srv" with a show ?thesis by simp
  next
    assume h: "executors srv1 = (executors srv)(executor sess' \<mapsto> Unlink ex s')"
      "sessions srv1 = (sessions srv)(s' := None)"
    show ?thesis
    proof (cases "executor sess = executor sess'")
      case True
      with y ex have "y = ex" by simp
      with True y h ss ne show ?thesis by (simp add: attached_def Unlink_def)
    next
      case False
      with y h ss ne show ?thesis by (simp add: attached_def)
    qed
  next
    assume h: "removeAll s' (linked ex) = []"
      "executors srv1 = (executors srv)(executor sess' := None)"
      "sessions srv1 = (sessions srv)(s' := None)"
    have "executor sess \<noteq> executor sess'"
    proof
      assume "executor sess = executor sess'"
      with y ex have "s \<in> set (linked ex)" by simp
      with ne have "s \<in> set (removeAll s' (linked ex))" by simp
      with h(1) show False by simp
    qed
    with y h ss ne show ?thesis by (simp add: attached_def)
  qed
qed

lemma run_calls_attached:
  "srv_inv srv \<Longrightarrow> attached srv s sess nm \<Longrightarrow> \<not> list_ex (destroys s) cs \<Longrightarrow>
   run_calls T n srv cs = Inr srv1 \<Longrightarrow> attached srv1 s sess nm"
proof (induction cs arbitrary: srv)
  case Nil
  then show ?case by simp
next
  case (Cons c cs)
  from Cons.prems(3) have nd: "\<not> destroys s c" and rest: "\<not> list_ex (destroys s) cs" by simp_all
  show ?case
  proof (cases c)
    case (Create d obs)
    with Cons.prems(4) obtain r srv' where
      st: "CreateSession T n srv d obs = Inr (r, srv')" and r: "run_calls T n srv' cs = Inr srv1"
      by (auto split: sum.splits)
    from st Cons.prems(1) have i: "srv_inv srv'" by (rule CreateSession_inv)
    from Cons.prems(1,2) st have "attached srv' s sess nm" by (rule CreateSession_attached)
    with i show ?thesis using rest r by (rule Cons.IH)
  next
    case (Destroy s' idle)
    with nd have ne: "s' \<noteq> s" by (simp add: destroys_def)
    from Destroy Cons.prems(4) obtain r srv' where
      st: "DestroySession idle srv (Some s') = Inr (r, srv')" and r: "run_calls T n srv' cs = Inr srv1"
      by (auto split: sum.splits)
    from st Cons.prems(1) have i: "srv_inv srv'" by (rule DestroySession_inv)
    from Cons.prems(1,2) ne st have "attached srv' s sess nm" by (rule DestroySession_attached)
    with i show ?thesis using rest r by (rule Cons.IH)
  qed
qed

lemma CreateExecutor_named:
  assumes i: "srv_inv srv" and c: "CreateExecutor T n srv d = Inr (Some e, srv1)"
  shows "\<exists>m pre post ex. model d = Some m \<and> preproc d = Some pre \<and> postproc d = Some post \<and>
           executors srv1 e = Some ex \<and> exec_name ex = executor_name m pre post"
proof -
  from CreateExecutor_result [OF c] obtain m pre post where
    d: "model d = Some m" "preproc d = Some pre" "postproc d = Some post" and
    k: "(executor_map srv (executor_name m pre post) = Some e \<and> srv1 = srv) \<or>
        (e = next_addr srv \<and> executors srv1 = (executors srv)(next_addr srv \<mapsto>
               \<lparr>exec_name = executor_name m pre post, exec_engine_num = engine_num d, linked = []\<rparr>))"
    by auto
  from k show ?thesis
  proof
    assume h: "executor_map srv (executor_name m pre post) = Some e \<and> srv1 = srv"
    with i obtain ex where "executors srv e = Some ex" "exec_name ex = executor_name m pre post"
      unfolding srv_inv_def by blast
    with h d show ?thesis by simp
  next
    assume "e = next_addr srv \<and> executors srv1 = (executors srv)(next_addr srv \<mapsto>
               \<lparr>exec_name = executor_name m pre post, exec_engine_num = engine_num d, linked = []\<rparr>)"
    with d show ?thesis by simp
  qed
qed

lemma CreateSession_first:
  assumes i: "srv_inv srv" and c: "CreateSession T n srv d obs = Inr (Some s, srv2)"
  shows "\<exists>sess m pre. model d = Some m \<and> preproc d = Some pre \<and>
           attached srv2 s sess (executor_name m pre (effective_postproc d))"
proof -
  let ?d = "if postproc d = None then d\<lparr>postproc := Some Postprocessor\<rparr> else d"
  from CreateSession_result [OF c] obtain e ex srv1 where
    ce: "CreateExecutor T n srv ?d = Inr (Some e, srv1)" and
    ex: "executors srv1 e = Some ex" and s: "s = next_addr srv1" and
    l: "srv2 = link_session srv1 e ex
          \<lparr>sess_name = name d, executor = e, sync_link = (obs = None), observer = obs\<rparr>"
    by auto
  from CreateExecutor_named [OF i ce] obtain m pre post ex' where
    n: "model ?d = Some m" "preproc ?d = Some pre" "postproc ?d = Some post"
       "executors srv1 e = Some ex'" "exec_name ex' = executor_name m pre post"
    by blast
  from n(3) have p: "post = effective_postproc d"
    by (auto simp: effective_postproc_def split: if_splits)
  from n(1,2) have md: "model d = Some m" "preproc d = Some pre" by (auto split: if_splits)
  from n(4) ex have "ex' = ex" by simp
  with n(5) p l s ex have
    "attached srv2 s \<lparr>sess_name = name d, executor = e, sync_link = (obs = None), observer = obs\<rparr>
       (executor_name m pre (effective_postproc d))"
    by (simp add: attached_def link_session_def Link_def)
  with md show ?thesis by blast
qed

lemma CreateSession_existing:
  assumes "model d = Some m" and "preproc d = Some pre"
    and "executor_map srv (executor_name m pre (effective_postproc d)) = Some e"
    and "executors srv e = Some ex"
  shows "CreateSession T n srv d obs =
           Inr (Some (next_addr srv),
                link_session srv e ex
                  \<lparr>sess_name = name d, executor = e, sync_link = (obs = None), observer = obs\<rparr>)"
  using assms
  by (cases "postproc d")
     (simp_all add: CreateSession_def CreateExecutor_def effective_postproc_def Let_def
        link_session_def)

lemma same_signature_name:
  assumes "signature_of d2 = signature_of d1" and "model d1 = Some m1" and "preproc d1 = Some p1"
  shows "\<exists>m2 p2. model d2 = Some m2 \<and> preproc d2 = Some p2 \<and>
           executor_name m2 p2 (effective_postproc d2) = executor_name m1 p1 (effective_postproc d1)"
  using assms
  by (auto simp: signature_of_def executor_name_def effective_postproc_def split: option.splits)

text \<open>
  C8.  On one server, started fresh and driven by any calls: after a \<open>CreateSession\<close>
  that returned session \<open>s1\<close>, and any further calls that do not destroy \<open>s1\<close>, a
  \<open>CreateSession\<close> whose desc has the same signature succeeds, its session points to the
  executor of \<open>s1\<close>, and the call creates no executor: the executor map is unchanged
  and the heap holds executors at the same addresses as before.  No two executors on the
  heap carry the same name.
\<close>

theorem shared_executor:
  assumes r0: "run_calls T n (InferServerPrivate_new tp) cs0 = Inr srv0"
      and c1: "CreateSession T n srv0 d1 o1 = Inr (Some s1, srv1)"
      and r1: "run_calls T n srv1 cs = Inr srv2"
      and nd: "\<not> list_ex (destroys s1) cs"
      and sg: "signature_of d2 = signature_of d1"
  shows "\<exists>s2 srv3 sess1 sess2.
           CreateSession T n srv2 d2 o2 = Inr (Some s2, srv3) \<and>
           sessions srv1 s1 = Some sess1 \<and> sessions srv3 s1 = Some sess1 \<and>
           sessions srv3 s2 = Some sess2 \<and> s2 \<noteq> s1 \<and> executor sess2 = executor sess1 \<and>
           executor_map srv3 = executor_map srv2 \<and>
           (\<forall>a. (executors srv3 a = None) = (executors srv2 a = None)) \<and>
           (\<forall>a b x y. executors srv3 a = Some x \<and> executors srv3 b = Some y \<and>
                      exec_name x = exec_name y \<longrightarrow> a = b)"
proof -
  have i0: "srv_inv srv0" using srv_inv_new r0 by (rule run_calls_inv)
  have i1: "srv_inv srv1" using c1 i0 by (rule CreateSession_inv)
  have i2: "srv_inv srv2" using i1 r1 by (rule run_calls_inv)
  from CreateSession_first [OF i0 c1] obtain sess1 m1 p1 where
    d1: "model d1 = Some m1" "preproc d1 = Some p1" and
    a1: "attached srv1 s1 sess1 (executor_name m1 p1 (effective_postproc d1))"
    by blast
  let ?nm = "executor_name m1 p1 (effective_postproc d1)"
  have a2: "attached srv2 s1 sess1 ?nm" using i1 a1 nd r1 by (rule run_calls_attached)
  from attached_bounds [OF i2 a2] obtain ex where
    b: "s1 < next_addr srv2" "executor_map srv2 ?nm = Some (executor sess1)"
       "executors srv2 (executor sess1) = Some ex"
    by blast
  from same_signature_name [OF sg d1] obtain m2 p2 where
    d2: "model d2 = Some m2" "preproc d2 = Some p2"
        "executor_name m2 p2 (effective_postproc d2) = ?nm"
    by blast
  let ?sess2 = "\<lparr>sess_name = name d2, executor = executor sess1, sync_link = (o2 = None),
                observer = o2\<rparr>"
  let ?srv3 = "link_session srv2 (executor sess1) ex ?sess2"
  have m2: "executor_map srv2 (executor_name m2 p2 (effective_postproc d2)) = Some (executor sess1)"
    by (subst d2(3)) (rule b(2))
  have c2: "CreateSession T n srv2 d2 o2 = Inr (Some (next_addr srv2), ?srv3)"
    using d2(1,2) m2 b(3) by (rule CreateSession_existing)
  have i3: "srv_inv ?srv3" using c2 i2 by (rule CreateSession_inv)
  have u: "\<forall>a b x y. executors ?srv3 a = Some x \<and> executors ?srv3 b = Some y \<and>
                      exec_name x = exec_name y \<longrightarrow> a = b"
  proof (intro allI impI)
    fix a b x y
    assume h: "executors ?srv3 a = Some x \<and> executors ?srv3 b = Some y \<and> exec_name x = exec_name y"
    with i3 have "executor_map ?srv3 (exec_name x) = Some a" "executor_map ?srv3 (exec_name y) = Some b"
      unfolding srv_inv_def by blast+
    with h show "a = b" by simp
  qed
  have s1: "sessions srv1 s1 = Some sess1" using a1 by (simp add: attached_def)
  have s2: "sessions srv2 s1 = Some sess1" using a2 by (simp add: attached_def)
  have f: "sessions ?srv3 s1 = Some sess1" "sessions ?srv3 (next_addr srv2) = Some ?sess2"
    "executor_map ?srv3 = executor_map srv2"
    "\<forall>a. (executors ?srv3 a = None) = (executors srv2 a = None)"
    using b(1,3) s2 by (simp_all add: link_session_def)
  from b(1) have "next_addr srv2 \<noteq> s1" by simp
  with c2 s1 f u show ?thesis by (intro exI [of _ "next_addr srv2"] exI [of _ ?srv3]
      exI [of _ sess1] exI [of _ ?sess2]) simp
qed

lemma srv_one_eq:
  "srv_one = \<lparr>executor_map = [''m1_subnet0_PreprocessorHost_Postprocessor'' \<mapsto> 0],
      executors = [0 \<mapsto> \<lparr>exec_name = ''m1_subnet0_PreprocessorHost_Postprocessor'',
                           exec_engine_num = 1, linked = [1]\<rparr>],
      sessions = [1 \<mapsto> \<lparr>sess_name = ''a'', executor = 0, sync_link = True, observer = None\<rparr>],
      next_addr = 2, tp_size = 3\<rparr>"
  by (simp add: srv_one_def CreateSession_def CreateExecutor_def InferServerPrivate_new_def
        sample_desc_def never_throws_def Let_def executor_name_def Postprocessor_def Link_def)

theorem shared_executor_witness:
  "\<exists>s2 srv3 sess1 sess2.
     CreateSession never_throws 4 (InferServerPrivate_new 0) (sample_desc ''a'' ''m1'') None
       = Inr (Some 1, srv_one) \<and>
     run_calls never_throws 4 srv_one [Create (sample_desc ''c'' ''m2'') (Some 7), Destroy 3 0]
       = Inr srv_two \<and>
     CreateSession never_throws 4 srv_two (sample_desc ''b'' ''m1'') None = Inr (Some s2, srv3) \<and>
     sessions srv_one 1 = Some sess1 \<and> sessions srv3 s2 = Some sess2 \<and> s2 \<noteq> 1 \<and>
     executor sess2 = executor sess1 \<and> executor_map srv3 = executor_map srv_two"
proof -
  have r0: "run_calls never_throws 4 (InferServerPrivate_new 0) [] = Inr (InferServerPrivate_new 0)"
    by simp
  have c1: "CreateSession never_throws 4 (InferServerPrivate_new 0)
       (sample_desc ''a'' ''m1'') None = Inr (Some 1, srv_one)"
    by (simp add: srv_one_def CreateSession_def CreateExecutor_def InferServerPrivate_new_def
          sample_desc_def never_throws_def Let_def)
  have r1: "run_calls never_throws 4 srv_one
       [Create (sample_desc ''c'' ''m2'') (Some 7), Destroy 3 0] = Inr srv_two"
    unfolding srv_two_def
    by (simp add: srv_one_eq CreateSession_def CreateExecutor_def sample_desc_def
          never_throws_def Let_def DestroySession_def CheckAndDestroyExecutor_def Link_def
          Unlink_def GetSessionNum_def executor_name_def Postprocessor_def)
  have nd: "\<not> list_ex (destroys 1) [Create (sample_desc ''c'' ''m2'') (Some 7), Destroy 3 0]"
    by (simp add: destroys_def)
  have sg: "signature_of (sample_desc ''b'' ''m1'') = signature_of (sample_desc ''a'' ''m1'')"
    by (simp add: signature_of_def sample_desc_def)
  from shared_executor [OF r0 c1 r1 nd sg, of None] c1 r1 show ?thesis by blast
qed

text \<open>
  C9.  A null model in \<open>CreateSession\<close> and a null session in \<open>Request\<close> do not come
  back as a failure value: the \<open>CHECK\<close> aborts.
\<close>

theorem facade_null_argument_counterexample:
  "CreateSession never_throws 4 (InferServerPrivate_new 0) desc_without_model None
     = Inl CheckFailed
   \<and> Request None (Some fresh_Package) 0 True (Some 1) = Inl CheckFailed"
  by (simp add: CreateSession_def desc_without_model_def sample_desc_def Request_def)

text \<open>
  C9, as the code has it.  A null model or preproc in \<open>CreateSession\<close>, and a null
  session or input in \<open>Request\<close> and \<open>RequestSync\<close>, fail a \<open>CHECK\<close>, which aborts.
  The misuses that are answered with a failure value are: \<open>Request\<close> on a sync session
  and \<open>RequestSync\<close> on an async one (false, nothing sent, status untouched), and a
  \<open>CreateSession\<close> whose executor cannot be constructed (null, server unchanged).
\<close>

theorem facade_invalid_argument:
  "(model d = None \<or> preproc d = None \<longrightarrow> CreateSession T n srv d obs = Inl CheckFailed)
   \<and> (session = None \<or> input = None \<longrightarrow>
        Request session input timeout wait_ok sent = Inl CheckFailed)
   \<and> (session = None \<or> input = None \<longrightarrow>
        RequestSync session input status output timeout wait_ok wait_time sent fulfilled
          = Inl CheckFailed)
   \<and> (sync_link sess \<longrightarrow> Request (Some sess) (Some inp) timeout wait_ok sent = Inr (False, []))
   \<and> (\<not> sync_link sess \<longrightarrow>
        RequestSync (Some sess) (Some inp) (Some st) (Some out) timeout wait_ok wait_time sent
          fulfilled = Inr (Returned False, st, out, []))
   \<and> (model d = Some m \<and> preproc d = Some pre \<and>
        executor_map srv (executor_name m pre (effective_postproc d)) = None \<and>
        T (if postproc d = None then d\<lparr>postproc := Some Postprocessor\<rparr> else d) \<longrightarrow>
        CreateSession T n srv d obs = Inr (None, srv))"
proof (intro conjI impI)
  show "CreateSession T n srv d obs = Inl CheckFailed" if "model d = None \<or> preproc d = None"
    using that by (auto simp: CreateSession_def)
  show "Request session input timeout wait_ok sent = Inl CheckFailed"
    if "session = None \<or> input = None"
    using that by (auto simp: Request_def split: option.splits)
  show "RequestSync session input status output timeout wait_ok wait_time sent fulfilled
          = Inl CheckFailed" if "session = None \<or> input = None"
    using that by (auto simp: RequestSync_def split: option.splits)
  show "Request (Some sess) (Some inp) timeout wait_ok sent = Inr (False, [])" if "sync_link sess"
    using that by (simp add: Request_def)
  show "RequestSync (Some sess) (Some inp) (Some st) (Some out) timeout wait_ok wait_time sent
          fulfilled = Inr (Returned False, st, out, [])" if "\<not> sync_link sess"
    using that by (simp add: RequestSync_def)
  show "CreateSession T n srv d obs = Inr (None, srv)"
    if "model d = Some m \<and> preproc d = Some pre \<and>
        executor_map srv (executor_name m pre (effective_postproc d)) = None \<and>
        T (if postproc d = None then d\<lparr>postproc := Some Postprocessor\<rparr> else d)"
    using that
    by (cases "postproc d")
       (simp_all add: CreateSession_def CreateExecutor_def effective_postproc_def Let_def)
qed

theorem facade_invalid_argument_witness:
  "CreateSession never_throws 4 (InferServerPrivate_new 0)
     ((sample_desc ''a'' ''m1'')\<lparr>preproc := None\<rparr>) None = Inl CheckFailed
   \<and> Request (Some (a_session False)) None 0 True (Some 1) = Inl CheckFailed
   \<and> RequestSync None (Some a_package) (Some SUCCESS) (Some fresh_Package) 0 True 0 (Some 1) None
       = Inl CheckFailed
   \<and> Request (Some (a_session True)) (Some a_package) 0 True (Some 1) = Inr (False, [])
   \<and> RequestSync (Some (a_session False)) (Some a_package) (Some SUCCESS) (Some fresh_Package)
        0 True 0 (Some 1) None = Inr (Returned False, SUCCESS, fresh_Package, [])
   \<and> CreateSession always_throws 4 (InferServerPrivate_new 0) (sample_desc ''a'' ''m1'') None
       = Inr (None, InferServerPrivate_new 0)"
  using
    facade_invalid_argument [of "(sample_desc ''a'' ''m1'')\<lparr>preproc := None\<rparr>" never_throws 4
      "InferServerPrivate_new 0" None "Some (a_session False)" None 0 True "Some 1"
      "Some SUCCESS" "Some fresh_Package" 0 None "a_session True" a_package SUCCESS fresh_Package]
    facade_invalid_argument [of "sample_desc ''a'' ''m1''" always_throws 4
      "InferServerPrivate_new 0" None None "Some a_package" 0 True "Some 1"
      "Some SUCCESS" "Some fresh_Package" 0 None "a_session False" a_package SUCCESS fresh_Package
      "\<lparr>Path = ''m1'', FunctionName = ''subnet0''\<rparr>" "\<lparr>TypeName = ''PreprocessorHost''\<rparr>"]
  by (simp add: sample_desc_def a_session_def always_throws_def InferServerPrivate_new_def
        effective_postproc_def)

section \<open>Properties of the cache\<close>

lemma item_descs_append: "item_descs (xs @ ys) = item_descs xs @ item_descs ys"
  by (induction xs) (simp_all split: option.splits)

lemma item_descs_has_desc:
  "list_all has_desc xs \<Longrightarrow> length (item_descs xs) = length xs"
  by (induction xs) (auto simp: has_desc_def)

lemma any_discarded_eq:
  "list_all has_desc xs \<Longrightarrow> any_discarded D xs = Inr (list_ex (item_discarded D) xs)"
  by (induction xs) (auto simp: has_desc_def item_discarded_def)

lemma scan_items_eq:
  "list_all has_desc xs \<Longrightarrow>
   scan_items D xs =
     Inr (filter (\<lambda>it. \<not> item_discarded D it) xs,
          map report (item_descs (filter (item_discarded D) xs)))"
  by (induction xs) (auto simp: has_desc_def item_discarded_def report_def)

lemma collect_live_eq:
  "list_all (\<lambda>p. list_all has_desc (data p)) q \<Longrightarrow>
   collect_live D q =
     Inr (filter (\<lambda>it. \<not> item_discarded D it) (concat (map data q)),
          map report (item_descs (filter (item_discarded D) (concat (map data q)))))"
  by (induction q) (simp_all add: scan_items_eq item_descs_append)

lemma report_all_eq:
  "list_all has_desc xs \<Longrightarrow> report_all xs = Inr (map report (item_descs xs))"
  by (induction xs) (auto simp: has_desc_def report_def)

lemma sweep_static_eq:
  "list_all (pack_ok STATIC) q \<Longrightarrow>
   sweep_static D q =
     Inr (filter (\<lambda>p. \<not> first_discarded D p) q,
          map report (item_descs (concat (map data (filter (first_discarded D) q)))))"
proof (induction q)
  case Nil
  then show ?case by simp
next
  case (Cons p q)
  from Cons.prems obtain it its d where
    p: "data p = it # its" "desc it = Some d" "list_all has_desc (data p)"
    by (cases "data p") (auto simp: pack_ok_def has_desc_def)
  from Cons have ih: "sweep_static D q =
     Inr (filter (\<lambda>p. \<not> first_discarded D p) q,
          map report (item_descs (concat (map data (filter (first_discarded D) q)))))"
    by simp
  have fd: "first_discarded D p = D (ctrl d)"
    using p by (simp add: first_discarded_def item_discarded_def)
  show ?case
  proof (cases "D (ctrl d)")
    case True
    with p ih fd show ?thesis
      using report_all_eq [OF p(3)] by (simp add: item_descs_append)
  next
    case False
    with p ih fd show ?thesis by simp
  qed
qed

lemma rebatch_empty: "rebatch bs live cur = [] \<longleftrightarrow> live = []"
  by (induction live arbitrary: cur) (simp_all add: Let_def)

lemma rebatch_items:
  "live \<noteq> [] \<Longrightarrow> concat (map data (rebatch bs live cur)) = cur @ live"
proof (induction live arbitrary: cur)
  case Nil
  then show ?case by simp
next
  case (Cons it live)
  show ?case
  proof (cases "live = []")
    case True
    then show ?thesis by (simp add: Let_def fresh_Package_def)
  next
    case False
    with Cons.IH show ?thesis by (simp add: Let_def fresh_Package_def)
  qed
qed

lemma rebatch_packs:
  "p \<in> set (rebatch bs live cur) \<Longrightarrow>
   data p \<noteq> [] \<and> descs p = [] \<and> set (data p) \<subseteq> set cur \<union> set live \<and>
   length (data p) \<le> max bs (Suc (length cur))"
proof (induction live arbitrary: cur)
  case Nil
  then show ?case by simp
next
  case (Cons it live)
  show ?case
  proof (cases "bs \<le> Suc (length cur) \<or> live = []")
    case True
    with Cons.prems have
      "p = fresh_Package\<lparr>data := cur @ [it], data_num := Suc (length cur)\<rparr> \<or>
       p \<in> set (rebatch bs live [])"
      by (simp add: Let_def)
    then show ?thesis
    proof
      assume "p = fresh_Package\<lparr>data := cur @ [it], data_num := Suc (length cur)\<rparr>"
      then show ?thesis by (auto simp: fresh_Package_def)
    next
      assume "p \<in> set (rebatch bs live [])"
      from Cons.IH [OF this] show ?thesis by auto
    qed
  next
    case False
    with Cons.prems have "p \<in> set (rebatch bs live (cur @ [it]))" by (simp add: Let_def)
    from Cons.IH [OF this] False show ?thesis by auto
  qed
qed

text \<open>The packages the dynamic sweep builds hold at most \<open>batch_size\<close> items.\<close>

lemma rebatch_batch_size:
  "0 < bs \<Longrightarrow> p \<in> set (rebatch bs live []) \<Longrightarrow> length (data p) \<le> bs"
  using rebatch_packs [of p bs live "[]"] by simp

lemma ClearDiscard_dynamic:
  assumes "cache_ok st" and "cache st \<noteq> []" and "strategy st = DYNAMIC"
  shows "ClearDiscard D st =
           Inr (st\<lparr>cache := rebatch (BatchSize st)
                               (filter (\<lambda>it. \<not> item_discarded D it) (all_items st)) []\<rparr>,
                map report (item_descs (filter (item_discarded D) (all_items st))))"
proof -
  from assms(1) have "list_all (\<lambda>p. list_all has_desc (data p)) (cache st)"
    by (auto simp: cache_ok_def pack_ok_def list_all_iff)
  from collect_live_eq [OF this, of D] assms(2,3) show ?thesis
    by (simp add: ClearDiscard_def all_items_def)
qed

lemma ClearDiscard_static:
  assumes "cache_ok st" and "cache st \<noteq> []" and "strategy st = STATIC"
  shows "ClearDiscard D st =
           Inr (st\<lparr>cache := filter (\<lambda>p. \<not> first_discarded D p) (cache st)\<rparr>,
                map report (item_descs (concat (map data
                  (filter (first_discarded D) (cache st))))))"
proof -
  from assms(1,3) have "list_all (pack_ok STATIC) (cache st)" by (simp add: cache_ok_def)
  from sweep_static_eq [OF this, of D] assms(2,3) show ?thesis
    by (simp add: ClearDiscard_def)
qed

lemma Pop_empty:
  "cache st = [] \<Longrightarrow> Pop D st = Inr (if running st then Blocked else Null, st, [])"
  by (simp add: Pop_def)

lemma Pop_clean_head:
  assumes "cache_ok st" and "cache st = pack # q" and "\<not> list_ex (item_discarded D) (data pack)"
  shows "Pop D st = Inr (Got (PreparePackage (strategy st) pack), st\<lparr>cache := q\<rparr>, [])"
proof -
  from assms(1,2) have "list_all has_desc (data pack)" by (simp add: cache_ok_def pack_ok_def)
  from any_discarded_eq [OF this, of D] assms(2,3) show ?thesis by (simp add: Pop_def)
qed

lemma Pop_sweep:
  assumes "cache_ok st" and "cache st = pack # q" and "list_ex (item_discarded D) (data pack)"
    and "ClearDiscard D st = Inr (st', es)"
  shows "Pop D st =
           Inr (case cache st' of
                  [] \<Rightarrow> (Null, st', es)
                | pack' # q' \<Rightarrow> (Got (PreparePackage (strategy st) pack'), st'\<lparr>cache := q'\<rparr>, es))"
proof -
  from assms(1,2) have "list_all has_desc (data pack)" by (simp add: cache_ok_def pack_ok_def)
  from any_discarded_eq [OF this, of D] assms(2,3,4) show ?thesis
    by (simp add: Pop_def split: list.splits)
qed

lemma ClearDiscard_total:
  assumes "cache_ok st" and "cache st \<noteq> []"
  shows "\<exists>st' es. ClearDiscard D st = Inr (st', es) \<and> strategy st' = strategy st \<and>
           running st' = running st \<and> (cache st' = [] \<longleftrightarrow> nothing_survives D st)"
proof (cases "strategy st")
  case DYNAMIC
  have "filter (\<lambda>it. \<not> item_discarded D it) (all_items st) = [] \<longleftrightarrow>
        list_all (item_discarded D) (all_items st)"
    by (auto simp: filter_empty_conv list_all_iff)
  with ClearDiscard_dynamic [OF assms DYNAMIC, of D] DYNAMIC show ?thesis
    by (simp add: rebatch_empty nothing_survives_def)
next
  case STATIC
  have "filter (\<lambda>p. \<not> first_discarded D p) (cache st) = [] \<longleftrightarrow>
        list_all (first_discarded D) (cache st)"
    by (auto simp: filter_empty_conv list_all_iff)
  with ClearDiscard_static [OF assms STATIC, of D] STATIC show ?thesis
    by (simp add: nothing_survives_def)
qed

text \<open>
  C2, as the code has it.  On a well-formed queue \<open>Pop\<close> always has a result.  It blocks
  exactly when the queue is empty and the cache is running.  It returns null exactly when
  the queue is empty and the cache is stopped, or when the head package holds a discarded
  item and the sweep leaves the queue empty, whether the cache is running or not.  In
  every other case it returns a package.
\<close>

theorem Pop_null_cases:
  assumes "cache_ok st"
  shows "\<exists>r st' es. Pop D st = Inr (r, st', es) \<and>
           (r = Blocked \<longleftrightarrow> cache st = [] \<and> running st) \<and>
           (r = Null \<longleftrightarrow> (cache st = [] \<and> \<not> running st) \<or>
                          (cache st \<noteq> [] \<and> head_discarded D st \<and> nothing_survives D st)) \<and>
           ((\<exists>p. r = Got p) \<longleftrightarrow>
              cache st \<noteq> [] \<and> \<not> (head_discarded D st \<and> nothing_survives D st))"
proof (cases "cache st")
  case Nil
  then show ?thesis by (simp add: Pop_empty)
next
  case (Cons pack q)
  show ?thesis
  proof (cases "list_ex (item_discarded D) (data pack)")
    case False
    from Pop_clean_head [OF assms Cons False] Cons False show ?thesis
      by (simp add: head_discarded_def)
  next
    case True
    from Cons have ne: "cache st \<noteq> []" by simp
    from ClearDiscard_total [OF assms ne, of D] obtain st' es where
      c: "ClearDiscard D st = Inr (st', es)" "cache st' = [] \<longleftrightarrow> nothing_survives D st"
      by blast
    from Pop_sweep [OF assms Cons True c(1)] c(2) Cons True show ?thesis
      by (cases "cache st'") (simp_all add: head_discarded_def)
  qed
qed

lemma live_item_descs:
  "list_all (\<lambda>it. \<not> item_discarded D it) xs \<Longrightarrow> list_all (\<lambda>d. \<not> D (ctrl d)) (item_descs xs)"
  by (induction xs) (auto simp: item_discarded_def split: option.splits)

lemma Prepare_dynamic_live:
  assumes "pack_ok DYNAMIC pack" and "list_all (\<lambda>it. \<not> item_discarded D it) (data pack)"
  shows "list_all (\<lambda>d. \<not> D (ctrl d)) (descs (PreparePackage DYNAMIC pack))"
    and "length (descs (PreparePackage DYNAMIC pack)) = length (data (PreparePackage DYNAMIC pack))"
  using assms live_item_descs [OF assms(2)]
  by (simp_all add: PreparePackage_def MoveDescToPackage_def pack_ok_def item_descs_has_desc)

lemma Prepare_static_live:
  assumes ok: "pack_ok STATIC pack" and one: "one_request pack" and fl: "\<not> first_discarded D pack"
  shows "list_all (\<lambda>d. \<not> D (ctrl d)) (descs (PreparePackage STATIC pack))"
proof -
  from ok obtain it its d where p: "data pack = it # its" "desc it = Some d"
    by (cases "data pack") (auto simp: pack_ok_def has_desc_def)
  from p fl have l: "\<not> D (ctrl d)" by (simp add: first_discarded_def item_discarded_def)
  from p one have "list_all (\<lambda>e. ctrl e = ctrl d) (item_descs its)"
    by (simp add: one_request_def)
  with p have "\<forall>c \<in> set (map ctrl (item_descs (data pack))). c = ctrl d"
    by (auto simp: list_all_iff)
  with ok l have "list_all (\<lambda>e. \<not> D (ctrl e)) (descs pack)"
    by (auto simp: pack_ok_def list_all_iff)
  then show ?thesis by (simp add: PreparePackage_def)
qed

lemma clean_head_not_first:
  "\<not> list_ex (item_discarded D) (data pack) \<Longrightarrow> \<not> first_discarded D pack"
  by (cases "data pack") (simp_all add: first_discarded_def)

lemma Pop_sweep_got:
  assumes "cache_ok st" and "cache st = pack # q" and "list_ex (item_discarded D) (data pack)"
    and "ClearDiscard D st = Inr (st1, es1)" and "Pop D st = Inr (Got p, st', es)"
  shows "\<exists>p' q'. cache st1 = p' # q' \<and> p = PreparePackage (strategy st) p'"
  using Pop_sweep [OF assms(1-4)] assms(5) by (cases "cache st1") auto

lemma all_items_have_desc:
  "cache_ok st \<Longrightarrow> list_all has_desc (all_items st)"
  by (auto simp: cache_ok_def pack_ok_def all_items_def list_all_iff)

text \<open>
  C1.  A package returned by \<open>Pop\<close> names no discarded control in its descs: no item
  whose control was discarded while the package was in the queue is handed on.  Under
  the dynamic strategy the sweep examines every item, and the package has one desc per
  item.  Under the static strategy the sweep keeps or drops a package by its first item;
  the items of a queued package belong to one request and share its control, which holds
  of every queue in service (\<open>served_one_request\<close> below, with \<open>reachable_cache_ok\<close> for
  the well-formedness).
\<close>

theorem Pop_returns_live:
  assumes ok: "cache_ok st" and pop: "Pop D st = Inr (Got p, st', es)"
      and one: "strategy st = STATIC \<longrightarrow> list_all one_request (cache st)"
  shows "list_all (\<lambda>d. \<not> D (ctrl d)) (descs p) \<and>
         (strategy st = DYNAMIC \<longrightarrow> length (descs p) = length (data p))"
proof (cases "cache st")
  case Nil
  with pop show ?thesis by (simp add: Pop_empty split: if_splits)
next
  case (Cons pack q)
  from ok Cons have pk: "pack_ok (strategy st) pack" by (simp add: cache_ok_def)
  from Cons have ne: "cache st \<noteq> []" by simp
  show ?thesis
  proof (cases "list_ex (item_discarded D) (data pack)")
    case False
    from Pop_clean_head [OF ok Cons False] pop
    have p: "p = PreparePackage (strategy st) pack" by simp
    show ?thesis
    proof (cases "strategy st")
      case DYNAMIC
      from False have "list_all (\<lambda>it. \<not> item_discarded D it) (data pack)"
        by (auto simp: list_all_iff list_ex_iff)
      with pk DYNAMIC p show ?thesis by (simp add: Prepare_dynamic_live)
    next
      case STATIC
      with one Cons have "one_request pack" by simp
      with pk STATIC p clean_head_not_first [OF False] show ?thesis
        by (simp add: Prepare_static_live)
    qed
  next
    case True
    show ?thesis
    proof (cases "strategy st")
      case DYNAMIC
      let ?live = "filter (\<lambda>it. \<not> item_discarded D it) (all_items st)"
      note c = ClearDiscard_dynamic [OF ok ne DYNAMIC, of D]
      from Pop_sweep_got [OF ok Cons True c pop] DYNAMIC obtain p' q' where
        r: "rebatch (BatchSize st) ?live [] = p' # q'" "p = PreparePackage DYNAMIC p'"
        by auto
      from r(1) have "p' \<in> set (rebatch (BatchSize st) ?live [])" by simp
      from rebatch_packs [OF this] have
        d: "data p' \<noteq> []" "descs p' = []" "set (data p') \<subseteq> set ?live" by simp_all
      from all_items_have_desc [OF ok] d(3) have "list_all has_desc (data p')"
        by (auto simp: list_all_iff)
      with d have k: "pack_ok DYNAMIC p'" by (simp add: pack_ok_def)
      from d(3) have "list_all (\<lambda>it. \<not> item_discarded D it) (data p')"
        by (auto simp: list_all_iff)
      with k r(2) DYNAMIC show ?thesis by (simp add: Prepare_dynamic_live)
    next
      case STATIC
      note c = ClearDiscard_static [OF ok ne STATIC, of D]
      from Pop_sweep_got [OF ok Cons True c pop] STATIC obtain p' q' where
        r: "filter (\<lambda>p. \<not> first_discarded D p) (cache st) = p' # q'"
           "p = PreparePackage STATIC p'"
        by auto
      from r(1) have "p' \<in> set (filter (\<lambda>p. \<not> first_discarded D p) (cache st))" by simp
      then have m: "p' \<in> set (cache st)" "\<not> first_discarded D p'" by simp_all
      from m(1) ok STATIC have k: "pack_ok STATIC p'" by (auto simp: cache_ok_def list_all_iff)
      from m(1) one STATIC have "one_request p'" by (auto simp: list_all_iff)
      with k m(2) r(2) STATIC show ?thesis by (simp add: Prepare_static_live)
    qed
  qed
qed

lemma reports_are_success: "list_all is_success_report (map report ds)"
  by (induction ds) (simp_all add: report_def)

text \<open>
  C6.  The sweep on a well-formed, non-empty queue.  Every report it makes is
  \<open>ProcessFailed\<close> with status \<open>SUCCESS\<close>.  Under the dynamic strategy the items left
  in the queue are the items that are not discarded, in order, and there is one report per
  discarded item, to that item's control.  Under the static strategy the packages left
  are those whose first item is not discarded, and there is one report per item of each
  dropped package, to that item's control.  The reports \<open>Pop\<close> makes are all of this kind.
\<close>

theorem sweep_reports_success:
  assumes ok: "cache_ok st" and ne: "cache st \<noteq> []"
  shows "\<exists>st1 es1. ClearDiscard D st = Inr (st1, es1) \<and> list_all is_success_report es1 \<and>
           (strategy st = DYNAMIC \<longrightarrow>
              all_items st1 = filter (\<lambda>it. \<not> item_discarded D it) (all_items st) \<and>
              es1 = map report (item_descs (filter (item_discarded D) (all_items st))) \<and>
              length es1 = length (filter (item_discarded D) (all_items st))) \<and>
           (strategy st = STATIC \<longrightarrow>
              cache st1 = filter (\<lambda>p. \<not> first_discarded D p) (cache st) \<and>
              es1 = map report (item_descs (concat (map data
                      (filter (first_discarded D) (cache st))))) \<and>
              length es1 = length (concat (map data (filter (first_discarded D) (cache st))))) \<and>
           (\<forall>r st2 es2. Pop D st = Inr (r, st2, es2) \<longrightarrow> list_all is_success_report es2)"
proof -
  from ne obtain pack q where c: "cache st = pack # q" by (cases "cache st") auto
  have popev: "list_all is_success_report es2"
    if cl: "ClearDiscard D st = Inr (st1, es1)" and s1: "list_all is_success_report es1"
      and pop: "Pop D st = Inr (r, st2, es2)" for st1 es1 r st2 es2
  proof (cases "list_ex (item_discarded D) (data pack)")
    case False
    from Pop_clean_head [OF ok c False] pop show ?thesis by simp
  next
    case True
    from Pop_sweep [OF ok c True cl] pop s1 show ?thesis by (cases "cache st1") auto
  qed
  have hd: "list_all has_desc (all_items st)" using ok by (rule all_items_have_desc)
  show ?thesis
  proof (cases "strategy st")
    case DYNAMIC
    let ?live = "filter (\<lambda>it. \<not> item_discarded D it) (all_items st)"
    let ?gone = "filter (item_discarded D) (all_items st)"
    note cl = ClearDiscard_dynamic [OF ok ne DYNAMIC, of D]
    have it: "concat (map data (rebatch (BatchSize st) ?live [])) = ?live"
    proof (cases "?live = []")
      case True
      then show ?thesis by (simp add: rebatch_empty [THEN iffD2])
    next
      case False
      then show ?thesis by (simp add: rebatch_items)
    qed
    from hd have "list_all has_desc ?gone" by (auto simp: list_all_iff)
    then have len: "length (item_descs ?gone) = length ?gone" by (rule item_descs_has_desc)
    from cl it len DYNAMIC popev [OF cl reports_are_success] show ?thesis
      by (simp add: all_items_def reports_are_success)
  next
    case STATIC
    let ?gone = "concat (map data (filter (first_discarded D) (cache st)))"
    note cl = ClearDiscard_static [OF ok ne STATIC, of D]
    from hd have "list_all has_desc ?gone" by (auto simp: list_all_iff all_items_def)
    then have len: "length (item_descs ?gone) = length ?gone" by (rule item_descs_has_desc)
    from cl len STATIC popev [OF cl reports_are_success] show ?thesis
      by (simp add: reports_are_success)
  qed
qed

subsection \<open>Push keeps the queue well-formed\<close>

lemma seal_static_ok:
  assumes "data pack \<noteq> []" and "list_all has_desc (data pack)" and "descs pack = []"
  shows "\<exists>done. seal_static Get Rid n k bi pack = Inr done \<and> data done = data pack \<and>
           pack_ok STATIC done"
proof -
  from assms(1,2) obtain it its d where p: "data pack = it # its" "desc it = Some d"
    by (cases "data pack") (auto simp: has_desc_def)
  show ?thesis
  proof (cases "n = 1 \<and> k \<noteq> 1")
    case True
    with p assms show ?thesis
      by (auto simp: seal_static_def CopyDescToPackageContinuous_def pack_ok_def list_all_iff)
  next
    case False
    with p assms show ?thesis
      by (auto simp: seal_static_def CopyDescToPackage_def pack_ok_def list_all_iff)
  qed
qed

lemma static_loop_total:
  assumes hi: "list_all has_desc (data inp)"
      and sealed: "\<And>p. pack_ok STATIC p \<Longrightarrow> set (data p) \<subseteq> set (data inp) \<Longrightarrow> Q p"
  shows "list_all has_desc (data pack) \<Longrightarrow> set (data pack) \<subseteq> set (data inp) \<Longrightarrow>
         descs pack = [] \<Longrightarrow> list_all Q q \<Longrightarrow>
         \<exists>q'. static_loop Get Rid bs inp idx pack bi q = Inr q' \<and> list_all Q q'"
proof (induction "length (data inp) - idx" arbitrary: idx pack bi q)
  case 0
  then show ?case by (subst static_loop.simps) simp
next
  case (Suc n)
  from Suc.hyps(2) have lt: "idx < length (data inp)" and n: "n = length (data inp) - Suc idx"
    by simp_all
  let ?it = "data inp ! idx"
  from lt have mem: "?it \<in> set (data inp)" by simp
  with hi obtain d where d: "desc ?it = Some d" by (auto simp: list_all_iff has_desc_def)
  let ?pack1 = "pack\<lparr>data := data pack @ [?it]\<rparr>"
  have p1: "data ?pack1 \<noteq> []" "list_all has_desc (data ?pack1)" "descs ?pack1 = []"
    "set (data ?pack1) \<subseteq> set (data inp)"
    using Suc.prems mem d by (simp_all add: has_desc_def)
  show ?case
  proof (cases "unat (bs - 1) < bi + 1 \<or> idx = length (data inp) - 1")
    case True
    from seal_static_ok [OF p1(1-3), of Get Rid "length (data inp)" "data_num inp" "bi + 1"]
    obtain pk where s: "seal_static Get Rid (length (data inp)) (data_num inp) (bi + 1) ?pack1
        = Inr pk" "data pk = data ?pack1" "pack_ok STATIC pk"
      by blast
    from s(2,3) p1(4) have "Q pk" by (intro sealed) simp_all
    with Suc.prems(4) have "list_all Q (q @ [pk])" by simp
    from Suc.hyps(1) [OF n _ _ _ this, of fresh_Package 0]
    obtain q' where "static_loop Get Rid bs inp (Suc idx) fresh_Package 0 (q @ [pk]) = Inr q'"
      "list_all Q q'"
      by (auto simp: fresh_Package_def)
    with lt d True s(1) show ?thesis
      by (subst static_loop.simps) (simp add: Let_def)
  next
    case False
    from Suc.hyps(1) [OF n p1(2) p1(4) p1(3) Suc.prems(4), of "bi + 1"]
    obtain q' where "static_loop Get Rid bs inp (Suc idx) ?pack1 (bi + 1) q = Inr q'"
      "list_all Q q'"
      by blast
    with lt d False show ?thesis
      by (subst static_loop.simps) (simp add: Let_def)
  qed
qed

lemma set_item_descs: "set (item_descs xs) = {d. \<exists>it \<in> set xs. desc it = Some d}"
  by (induction xs) (auto split: option.splits)

lemma one_request_iff:
  "one_request p \<longleftrightarrow>
     (\<forall>a \<in> set (item_descs (data p)). \<forall>b \<in> set (item_descs (data p)). ctrl a = ctrl b)"
  by (cases "item_descs (data p)") (auto simp: one_request_def list_all_iff)

lemma one_request_subset:
  "one_request inp \<Longrightarrow> set (data p) \<subseteq> set (data inp) \<Longrightarrow> one_request p"
  unfolding one_request_iff set_item_descs by blast

lemma Enqueue_static_ok:
  assumes "strategy st = STATIC" and "list_all has_desc (data pack)"
  shows "\<exists>st'. Enqueue Get Rid st pack = Inr st' \<and> running st' = running st \<and>
           strategy st' = strategy st \<and> batcher st' = batcher st \<and>
           (cache_ok st \<longrightarrow> cache_ok st') \<and>
           (cache_ok st \<and> one_request pack \<and> list_all one_request (cache st) \<longrightarrow>
              list_all one_request (cache st'))"
proof (cases "cache_ok st \<and> one_request pack \<and> list_all one_request (cache st)")
  case True
  then have "list_all (\<lambda>p. pack_ok STATIC p \<and> one_request p) (cache st)"
    using assms(1) by (auto simp: cache_ok_def list_all_iff)
  from static_loop_total [where Q = "\<lambda>p. pack_ok STATIC p \<and> one_request p", OF assms(2) _ _ _ _ this,
      of fresh_Package Get Rid "batch_size st" 0 0] True
  obtain q' where "static_loop Get Rid (batch_size st) pack 0 fresh_Package 0 (cache st) = Inr q'"
    "list_all (\<lambda>p. pack_ok STATIC p \<and> one_request p) q'"
    by (auto simp: fresh_Package_def one_request_subset)
  with assms(1) True show ?thesis
    by (auto simp: Enqueue_def cache_ok_def list_all_iff)
next
  case False
  show ?thesis
  proof (cases "cache_ok st")
    case True
    then have "list_all (pack_ok STATIC) (cache st)" using assms(1) by (simp add: cache_ok_def)
    from static_loop_total [where Q = "pack_ok STATIC", OF assms(2) _ _ _ _ this,
        of fresh_Package Get Rid "batch_size st" 0 0]
    obtain q' where "static_loop Get Rid (batch_size st) pack 0 fresh_Package 0 (cache st) = Inr q'"
      "list_all (pack_ok STATIC) q'"
      by (auto simp: fresh_Package_def)
    with assms(1) True False show ?thesis
      by (auto simp: Enqueue_def cache_ok_def)
  next
    case nok: False
    have "list_all (\<lambda>p. True) (cache st)" by (simp add: list_all_iff)
    from static_loop_total [where Q = "\<lambda>p. True", OF assms(2) _ _ _ _ this,
        of fresh_Package Get Rid "batch_size st" 0 0]
    obtain q' where "static_loop Get Rid (batch_size st) pack 0 fresh_Package 0 (cache st) = Inr q'"
      by (auto simp: fresh_Package_def)
    with assms(1) nok show ?thesis by (auto simp: Enqueue_def)
  qed
qed

lemma AddItem_ok:
  assumes "has_desc it" and "list_all has_desc (batcher st)"
  shows "\<exists>st'. AddItem Get Rid st it = Inr st' \<and> list_all has_desc (batcher st') \<and>
           running st' = running st \<and> strategy st' = strategy st \<and>
           (list_all (pack_ok DYNAMIC) (cache st) \<longrightarrow> list_all (pack_ok DYNAMIC) (cache st'))"
proof (cases "batcher st")
  case Nil
  with assms show ?thesis
    by (auto simp: AddItem_def batch_sink_def Let_def has_desc_def pack_ok_def)
next
  case (Cons b bs)
  with assms obtain d where "desc b = Some d" by (auto simp: has_desc_def)
  with Cons assms show ?thesis
    by (auto simp: AddItem_def batch_sink_def Let_def has_desc_def pack_ok_def)
qed

lemma Enqueue_dynamic_ok:
  "list_all has_desc xs \<Longrightarrow> list_all has_desc (batcher st) \<Longrightarrow>
   \<exists>st'. Enqueue_dynamic Get Rid st xs = Inr st' \<and> list_all has_desc (batcher st') \<and>
         running st' = running st \<and> strategy st' = strategy st \<and>
         (list_all (pack_ok DYNAMIC) (cache st) \<longrightarrow> list_all (pack_ok DYNAMIC) (cache st'))"
proof (induction xs arbitrary: st)
  case Nil
  then show ?case by simp
next
  case (Cons it xs)
  from Cons.prems have h: "has_desc it" "list_all has_desc xs" by simp_all
  from AddItem_ok [OF h(1) Cons.prems(2), of Get Rid] obtain st1 where
    a: "AddItem Get Rid st it = Inr st1" "list_all has_desc (batcher st1)"
       "running st1 = running st" "strategy st1 = strategy st"
       "list_all (pack_ok DYNAMIC) (cache st) \<longrightarrow> list_all (pack_ok DYNAMIC) (cache st1)"
    by blast
  from Cons.IH [OF h(2) a(2)] obtain st' where
    b: "Enqueue_dynamic Get Rid st1 xs = Inr st'" "list_all has_desc (batcher st')"
       "running st' = running st1" "strategy st' = strategy st1"
       "list_all (pack_ok DYNAMIC) (cache st1) \<longrightarrow> list_all (pack_ok DYNAMIC) (cache st')"
    by blast
  from h(1) obtain d where "desc it = Some d" by (auto simp: has_desc_def)
  with a b show ?case by simp
qed

lemma Enqueue_ok:
  assumes "list_all has_desc (data pack)" and "list_all has_desc (batcher st)"
  shows "\<exists>st'. Enqueue Get Rid st pack = Inr st' \<and> running st' = running st \<and>
           strategy st' = strategy st \<and> (cache_ok st \<longrightarrow> cache_ok st')"
proof (cases "strategy st")
  case DYNAMIC
  from Enqueue_dynamic_ok [OF assms, of Get Rid] DYNAMIC show ?thesis
    by (auto simp: Enqueue_def cache_ok_def)
next
  case STATIC
  from Enqueue_static_ok [OF STATIC assms(1), of Get Rid] show ?thesis by auto
qed

text \<open>
  C10.  \<open>Push\<close> of a package on a cache that is not running returns false and leaves the
  cache as it was: queue, batcher and flags.  On a running cache \<open>Push\<close> never returns
  false, and it returns true when the items carry their descriptors, as the \<open>CHECK\<close> in
  \<open>Enqueue\<close> demands, and so do the items waiting in the batcher.
\<close>

theorem Push_running_gate:
  "(\<not> running st \<longrightarrow> Push Get Rid st (Some pack) = Inr (False, st))
   \<and> (running st \<longrightarrow> (\<forall>st'. Push Get Rid st (Some pack) \<noteq> Inr (False, st')))
   \<and> (running st \<and> list_all has_desc (data pack) \<and> list_all has_desc (batcher st) \<longrightarrow>
        (\<exists>st'. Push Get Rid st (Some pack) = Inr (True, st')))"
proof (intro conjI impI)
  assume "\<not> running st"
  then show "Push Get Rid st (Some pack) = Inr (False, st)" by (simp add: Push_def)
next
  assume "running st"
  then show "\<forall>st'. Push Get Rid st (Some pack) \<noteq> Inr (False, st')"
    by (simp add: Push_def split: sum.splits)
next
  assume a: "running st \<and> list_all has_desc (data pack) \<and> list_all has_desc (batcher st)"
  then have "list_all has_desc (data pack)" "list_all has_desc (batcher st)" by simp_all
  from Enqueue_ok [OF this, of Get Rid] obtain st' where "Enqueue Get Rid st pack = Inr st'"
    by blast
  with a show "\<exists>st'. Push Get Rid st (Some pack) = Inr (True, st')" by (simp add: Push_def)
qed

lemma Push_cache_ok:
  assumes "cache_ok st" and "list_all has_desc (data pack)"
    and "Push Get Rid st (Some pack) = Inr (b, st')"
  shows "cache_ok st'"
proof (cases "running st")
  case False
  with assms show ?thesis by (simp add: Push_def)
next
  case True
  from assms(1) have "list_all has_desc (batcher st)" by (simp add: cache_ok_def)
  from Enqueue_ok [OF assms(2) this, of Get Rid] assms(1) obtain st1 where
    "Enqueue Get Rid st pack = Inr st1" "cache_ok st1" by blast
  with True assms(3) show ?thesis by (simp add: Push_def)
qed

lemma Push_one_request:
  assumes "cache_ok st" and "strategy st = STATIC" and "list_all has_desc (data pack)"
    and "one_request pack" and "list_all one_request (cache st)"
    and "Push Get Rid st (Some pack) = Inr (b, st')"
  shows "list_all one_request (cache st')"
proof (cases "running st")
  case False
  with assms show ?thesis by (simp add: Push_def)
next
  case True
  from Enqueue_static_ok [OF assms(2,3), of Get Rid] assms(1,4,5) obtain st1 where
    "Enqueue Get Rid st pack = Inr st1" "list_all one_request (cache st1)" by blast
  with True assms(6) show ?thesis by (simp add: Push_def)
qed

lemma Pop_cache_ok:
  assumes ok: "cache_ok st" and pop: "Pop D st = Inr (r, st', es)"
  shows "cache_ok st' \<and> strategy st' = strategy st \<and> set (cache st') \<subseteq> set (cache st) \<or>
         cache_ok st' \<and> strategy st' = strategy st \<and> strategy st = DYNAMIC"
proof (cases "cache st")
  case Nil
  with pop ok show ?thesis by (auto simp: Pop_empty)
next
  case (Cons pack q)
  from Cons have ne: "cache st \<noteq> []" by simp
  show ?thesis
  proof (cases "list_ex (item_discarded D) (data pack)")
    case False
    from Pop_clean_head [OF ok Cons False] pop ok Cons show ?thesis
      by (auto simp: cache_ok_def)
  next
    case True
    show ?thesis
    proof (cases "strategy st")
      case DYNAMIC
      let ?live = "filter (\<lambda>it. \<not> item_discarded D it) (all_items st)"
      note c = ClearDiscard_dynamic [OF ok ne DYNAMIC, of D]
      have k: "pack_ok DYNAMIC p" if "p \<in> set (rebatch (BatchSize st) ?live [])" for p
      proof -
        from rebatch_packs [OF that] have
          d: "data p \<noteq> []" "descs p = []" "set (data p) \<subseteq> set ?live" by simp_all
        from all_items_have_desc [OF ok] d(3) have "list_all has_desc (data p)"
          by (auto simp: list_all_iff)
        with d show ?thesis by (simp add: pack_ok_def)
      qed
      from Pop_sweep [OF ok Cons True c] pop k ok DYNAMIC show ?thesis
        by (cases "rebatch (BatchSize st) ?live []") (auto simp: cache_ok_def list_all_iff)
    next
      case STATIC
      note c = ClearDiscard_static [OF ok ne STATIC, of D]
      have sub: "set xs \<subseteq> set (cache st)"
        if "filter (\<lambda>p. \<not> first_discarded D p) (cache st) = x # xs" for x xs
      proof -
        have "set (filter (\<lambda>p. \<not> first_discarded D p) (cache st)) \<subseteq> set (cache st)" by auto
        with that show ?thesis by auto
      qed
      have sub0: "set (filter (\<lambda>p. \<not> first_discarded D p) (cache st)) \<subseteq> set (cache st)" by auto
      from Pop_sweep [OF ok Cons True c] pop ok STATIC sub sub0 show ?thesis
        by (cases "filter (\<lambda>p. \<not> first_discarded D p) (cache st)")
           (auto simp: cache_ok_def list_all_iff)
    qed
  qed
qed

subsection \<open>Every reachable queue is well-formed\<close>

lemma Enqueue_dynamic_checked:
  "Enqueue_dynamic Get Rid st xs = Inr st' \<Longrightarrow> list_all has_desc xs"
  by (induction xs arbitrary: st) (auto simp: has_desc_def split: option.splits sum.splits)

lemma static_loop_checked:
  "static_loop Get Rid bs inp idx pack bi q = Inr q' \<Longrightarrow>
   \<forall>j. idx \<le> j \<and> j < length (data inp) \<longrightarrow> has_desc (data inp ! j)"
proof (induction "length (data inp) - idx" arbitrary: idx pack bi q)
  case 0
  then show ?case by auto
next
  case (Suc n)
  from Suc.hyps(2) have lt: "idx < length (data inp)" and n: "n = length (data inp) - Suc idx"
    by simp_all
  from Suc.prems lt obtain d where d: "desc (data inp ! idx) = Some d"
    by (subst (asm) static_loop.simps) (auto split: option.splits)
  from Suc.prems lt d obtain pack2 bi2 q2 where
    "static_loop Get Rid bs inp (Suc idx) pack2 bi2 q2 = Inr q'"
    by (subst (asm) static_loop.simps) (auto simp: Let_def split: if_splits sum.splits)
  from Suc.hyps(1) [OF n this] have
    r: "\<forall>j. Suc idx \<le> j \<and> j < length (data inp) \<longrightarrow> has_desc (data inp ! j)" .
  show ?case
  proof (intro allI impI)
    fix j assume j: "idx \<le> j \<and> j < length (data inp)"
    show "has_desc (data inp ! j)"
    proof (cases "j = idx")
      case True
      with d show ?thesis by (simp add: has_desc_def)
    next
      case False
      with j r show ?thesis by simp
    qed
  qed
qed

lemma Enqueue_checked:
  assumes "Enqueue Get Rid st pack = Inr st'"
  shows "list_all has_desc (data pack)"
proof (cases "strategy st")
  case DYNAMIC
  with assms show ?thesis by (simp add: Enqueue_def Enqueue_dynamic_checked)
next
  case STATIC
  with assms obtain q' where
    "static_loop Get Rid (batch_size st) pack 0 fresh_Package 0 (cache st) = Inr q'"
    by (auto simp: Enqueue_def split: sum.splits)
  from static_loop_checked [OF this] show ?thesis
    by (auto simp: list_all_iff in_set_conv_nth)
qed

lemma Push_returns_cache_ok:
  assumes "cache_ok st" and "Push Get Rid st (Some pack) = Inr (b, st')"
  shows "cache_ok st'"
proof (cases "running st")
  case False
  with assms show ?thesis by (simp add: Push_def)
next
  case True
  with assms(2) obtain st1 where "Enqueue Get Rid st pack = Inr st1"
    by (auto simp: Push_def split: sum.splits)
  from Enqueue_checked [OF this] have "list_all has_desc (data pack)" .
  with assms(1) show ?thesis using assms(2) by (rule Push_cache_ok)
qed

lemma Emit_cache_ok:
  assumes "cache_ok st" and "strategy st = DYNAMIC" and "Emit Get Rid st = Inr st'"
  shows "cache_ok st'"
proof (cases "batcher st")
  case Nil
  with assms show ?thesis by (simp add: Emit_def)
next
  case (Cons b bs)
  with assms(1) obtain d where "desc b = Some d" by (auto simp: cache_ok_def has_desc_def)
  with Cons assms show ?thesis
    by (auto simp: Emit_def batch_sink_def cache_ok_def pack_ok_def)
qed

lemma Stop_cache_ok:
  assumes "cache_ok st" and "Stop Get Rid st = Inr st'"
  shows "cache_ok st'"
proof (cases "strategy st")
  case DYNAMIC
  from assms(1) DYNAMIC have "cache_ok (st\<lparr>running := False\<rparr>)"
    "strategy (st\<lparr>running := False\<rparr>) = DYNAMIC"
    by (simp_all add: cache_ok_def)
  moreover from assms(2) DYNAMIC have "Emit Get Rid (st\<lparr>running := False\<rparr>) = Inr st'"
    by (simp add: Stop_def)
  ultimately show ?thesis by (rule Emit_cache_ok)
next
  case STATIC
  with assms show ?thesis by (auto simp: Stop_def cache_ok_def)
qed

lemma Pop_keeps_cache_ok:
  assumes "cache_ok st" and "Pop D st = Inr (r, st', es)"
  shows "cache_ok st'"
  using Pop_cache_ok [OF assms] by blast

lemma reachable_cache_ok: "reachable st \<Longrightarrow> cache_ok st"
proof (induction rule: reachable.induct)
  case (created strat capacity bs)
  show ?case by (simp add: cache_ok_def CacheBase_new_def)
next
  case (started st)
  then show ?case by (simp add: cache_ok_def Start_def)
next
  case (stopped st Get Rid st')
  then show ?case by (auto intro: Stop_cache_ok)
next
  case (pushed st Get Rid pack b st')
  then show ?case by (auto intro: Push_returns_cache_ok)
next
  case (popped st D r st' es)
  then show ?case by (auto intro: Pop_keeps_cache_ok)
next
  case (flushed st Get Rid st')
  then show ?case by (auto intro: Emit_cache_ok)
qed

subsection \<open>The batch-size bound outside the continuous-blob path\<close>

lemma length_item_descs: "length (item_descs xs) \<le> length xs"
  by (induction xs) (simp_all split: option.splits)

lemma seal_static_descs:
  assumes "seal_static Get Rid n k bi pack = Inr pk"
  shows "length (descs pk) =
           length (descs pack) + (if n = 1 \<and> k \<noteq> 1 then k else length (item_descs (data pack)))"
  using assms
  by (auto simp: seal_static_def CopyDescToPackageContinuous_def CopyDescToPackage_def Let_def
        split: list.splits option.splits if_splits)

lemma static_loop_bound:
  assumes pos: "0 < unat bs" and blob: "\<not> oversized_blob (unat bs) inp"
  shows "length (data pack) = bi \<Longrightarrow> bi < unat bs \<Longrightarrow> descs pack = [] \<Longrightarrow>
         list_all (\<lambda>p. length (descs p) \<le> unat bs) q \<Longrightarrow>
         static_loop Get Rid bs inp idx pack bi q = Inr q' \<Longrightarrow>
         list_all (\<lambda>p. length (descs p) \<le> unat bs) q'"
proof (induction "length (data inp) - idx" arbitrary: idx pack bi q)
  case 0
  then show ?case by (subst (asm) static_loop.simps) simp
next
  case (Suc n)
  from Suc.hyps(2) have lt: "idx < length (data inp)" and n: "n = length (data inp) - Suc idx"
    by simp_all
  from pos have m1: "unat (bs - 1) = unat bs - 1" by (simp add: unat_minus_one unat_gt_0)
  let ?pack1 = "pack\<lparr>data := data pack @ [data inp ! idx]\<rparr>"
  from Suc.prems(5) lt obtain d where d: "desc (data inp ! idx) = Some d"
    by (subst (asm) static_loop.simps) (auto split: option.splits)
  show ?case
  proof (cases "unat (bs - 1) < bi + 1 \<or> idx = length (data inp) - 1")
    case True
    with Suc.prems(5) lt d obtain pk where
      s: "seal_static Get Rid (length (data inp)) (data_num inp) (bi + 1) ?pack1 = Inr pk" and
      r: "static_loop Get Rid bs inp (Suc idx) fresh_Package 0 (q @ [pk]) = Inr q'"
      by (subst (asm) static_loop.simps) (auto simp: Let_def split: sum.splits)
    have "length (descs pk) \<le> unat bs"
    proof (cases "length (data inp) = 1 \<and> data_num inp \<noteq> 1")
      case True
      with blob have "data_num inp \<le> unat bs" by (simp add: oversized_blob_def)
      with seal_static_descs [OF s] True Suc.prems(3) show ?thesis by simp
    next
      case False
      have "length (item_descs (data ?pack1)) \<le> length (data ?pack1)"
        by (rule length_item_descs)
      with seal_static_descs [OF s] False Suc.prems(1,2,3) show ?thesis by auto
    qed
    with Suc.prems(4) have "list_all (\<lambda>p. length (descs p) \<le> unat bs) (q @ [pk])" by simp
    from Suc.hyps(1) [OF n _ _ _ this r] pos show ?thesis by (simp add: fresh_Package_def)
  next
    case False
    with Suc.prems(5) lt d have
      r: "static_loop Get Rid bs inp (Suc idx) ?pack1 (bi + 1) q = Inr q'"
      by (subst (asm) static_loop.simps) (simp add: Let_def)
    from False m1 pos have "bi + 1 < unat bs" by arith
    from Suc.hyps(1) [OF n _ this _ Suc.prems(4) r] Suc.prems(1,3) show ?thesis by simp
  qed
qed

lemma batch_sink_size:
  assumes "batch_sink Get Rid st buf = Inr st'"
  shows "batch_size st' = batch_size st \<and> batcher st' = batcher st \<and>
         strategy st' = strategy st \<and>
         (\<exists>p. cache st' = cache st @ [p] \<and> data p = buf)"
  using assms by (auto simp: batch_sink_def split: list.splits option.splits)

lemma AddItem_size:
  assumes "0 < BatchSize st" and "length (batcher st) < BatchSize st"
    and "list_all (\<lambda>p. length (data p) \<le> BatchSize st) (cache st)"
    and "AddItem Get Rid st it = Inr st'"
  shows "batch_size st' = batch_size st \<and> length (batcher st') < BatchSize st \<and>
         list_all (\<lambda>p. length (data p) \<le> BatchSize st) (cache st')"
proof (cases "BatchSize st \<le> length (batcher st @ [it])")
  case True
  with assms(4) have "batch_sink Get Rid (st\<lparr>batcher := []\<rparr>) (batcher st @ [it]) = Inr st'"
    by (simp add: AddItem_def Let_def)
  from batch_sink_size [OF this] obtain p where
    "batch_size st' = batch_size st" "batcher st' = []" "cache st' = cache st @ [p]"
    "data p = batcher st @ [it]"
    by auto
  with assms(1,2,3) show ?thesis by simp
next
  case False
  with assms(4) have "st' = st\<lparr>batcher := batcher st @ [it]\<rparr>"
    by (simp add: AddItem_def Let_def)
  with False assms(3) show ?thesis by simp
qed

lemma Enqueue_dynamic_size:
  "0 < BatchSize st \<Longrightarrow> length (batcher st) < BatchSize st \<Longrightarrow>
   list_all (\<lambda>p. length (data p) \<le> BatchSize st) (cache st) \<Longrightarrow>
   Enqueue_dynamic Get Rid st xs = Inr st' \<Longrightarrow>
   batch_size st' = batch_size st \<and> length (batcher st') < BatchSize st \<and>
   list_all (\<lambda>p. length (data p) \<le> BatchSize st) (cache st')"
proof (induction xs arbitrary: st)
  case Nil
  then show ?case by simp
next
  case (Cons it xs)
  from Cons.prems(4) obtain st1 where
    a: "AddItem Get Rid st it = Inr st1" and e: "Enqueue_dynamic Get Rid st1 xs = Inr st'"
    by (auto split: option.splits sum.splits)
  from AddItem_size [OF Cons.prems(1,2,3) a] have
    b: "batch_size st1 = batch_size st" "length (batcher st1) < BatchSize st"
       "list_all (\<lambda>p. length (data p) \<le> BatchSize st) (cache st1)"
    by simp_all
  from b(1) have bs: "BatchSize st1 = BatchSize st" by (simp add: BatchSize_def)
  from Cons.IH [of st1] Cons.prems(1) b bs e show ?case by simp
qed

lemma Enqueue_dynamic_strategy:
  "Enqueue_dynamic Get Rid st xs = Inr st' \<Longrightarrow> strategy st' = strategy st"
proof (induction xs arbitrary: st)
  case Nil
  then show ?case by simp
next
  case (Cons it xs)
  from Cons.prems obtain st1 where
    a: "AddItem Get Rid st it = Inr st1" and e: "Enqueue_dynamic Get Rid st1 xs = Inr st'"
    by (auto split: option.splits sum.splits)
  from a have "strategy st1 = strategy st"
    by (auto simp: AddItem_def Let_def dest: batch_sink_size split: if_splits)
  with Cons.IH [OF e] show ?case by simp
qed

lemma Push_size_ok:
  assumes "size_ok st" and "0 < BatchSize st" and "\<not> oversized_blob (BatchSize st) pack"
    and "Push Get Rid st (Some pack) = Inr (b, st')"
  shows "size_ok st' \<and> BatchSize st' = BatchSize st"
proof (cases "running st")
  case False
  with assms show ?thesis by (simp add: Push_def)
next
  case True
  with assms(4) have e: "Enqueue Get Rid st pack = Inr st'"
    by (auto simp: Push_def split: sum.splits)
  show ?thesis
  proof (cases "strategy st")
    case DYNAMIC
    with e have d: "Enqueue_dynamic Get Rid st (data pack) = Inr st'" by (simp add: Enqueue_def)
    from assms(1) DYNAMIC have
      "length (batcher st) < BatchSize st"
      "list_all (\<lambda>p. length (data p) \<le> BatchSize st) (cache st)"
      by (simp_all add: size_ok_def)
    from Enqueue_dynamic_size [OF assms(2) this d] have
      r: "batch_size st' = batch_size st" "length (batcher st') < BatchSize st"
         "list_all (\<lambda>p. length (data p) \<le> BatchSize st) (cache st')"
      by simp_all
    from Enqueue_dynamic_strategy [OF d] DYNAMIC have "strategy st' = DYNAMIC" by simp
    with r show ?thesis by (simp add: size_ok_def BatchSize_def)
  next
    case STATIC
    with e obtain q' where
      l: "static_loop Get Rid (batch_size st) pack 0 fresh_Package 0 (cache st) = Inr q'" and
      st': "st' = st\<lparr>cache := q'\<rparr>"
      by (auto simp: Enqueue_def split: sum.splits)
    from assms(1) STATIC have
      "list_all (\<lambda>p. length (descs p) \<le> unat (batch_size st)) (cache st)"
      by (simp add: size_ok_def BatchSize_def)
    from static_loop_bound [OF _ _ _ _ _ this l] assms(2,3)
    have "list_all (\<lambda>p. length (descs p) \<le> unat (batch_size st)) q'"
      by (simp add: BatchSize_def fresh_Package_def)
    with st' STATIC show ?thesis by (simp add: size_ok_def BatchSize_def)
  qed
qed

lemma Emit_size_ok:
  assumes "size_ok st" and "strategy st = DYNAMIC" and "0 < BatchSize st"
    and "Emit Get Rid st = Inr st'"
  shows "size_ok st' \<and> BatchSize st' = BatchSize st"
proof (cases "batcher st = []")
  case True
  with assms show ?thesis by (simp add: Emit_def)
next
  case False
  with assms(4) have "batch_sink Get Rid (st\<lparr>batcher := []\<rparr>) (batcher st) = Inr st'"
    by (simp add: Emit_def)
  from batch_sink_size [OF this] obtain p where
    "batch_size st' = batch_size st" "batcher st' = []" "strategy st' = strategy st"
    "cache st' = cache st @ [p]" "data p = batcher st"
    by auto
  with assms(1,2,3) show ?thesis by (simp add: size_ok_def BatchSize_def)
qed

lemma Pop_size_ok:
  assumes ok: "cache_ok st" and sz: "size_ok st" and pos: "0 < BatchSize st"
    and pop: "Pop D st = Inr (r, st', es)"
  shows "size_ok st' \<and> BatchSize st' = BatchSize st"
proof (cases "cache st")
  case Nil
  with pop sz show ?thesis by (auto simp: Pop_empty)
next
  case (Cons pack q)
  from Cons have ne: "cache st \<noteq> []" by simp
  show ?thesis
  proof (cases "list_ex (item_discarded D) (data pack)")
    case False
    from Pop_clean_head [OF ok Cons False] pop have "st' = st\<lparr>cache := q\<rparr>" by simp
    with sz Cons show ?thesis
      by (cases "strategy st") (simp_all add: size_ok_def BatchSize_def)
  next
    case True
    show ?thesis
    proof (cases "strategy st")
      case DYNAMIC
      let ?live = "filter (\<lambda>it. \<not> item_discarded D it) (all_items st)"
      note c = ClearDiscard_dynamic [OF ok ne DYNAMIC, of D]
      have k: "\<forall>p \<in> set (rebatch (BatchSize st) ?live []). length (data p) \<le> BatchSize st"
        using rebatch_batch_size [OF pos] by blast
      from Pop_sweep [OF ok Cons True c] pop k sz DYNAMIC show ?thesis
        by (cases "rebatch (BatchSize st) ?live []")
           (auto simp: size_ok_def BatchSize_def list_all_iff)
    next
      case STATIC
      note c = ClearDiscard_static [OF ok ne STATIC, of D]
      have sub: "set (filter (\<lambda>p. \<not> first_discarded D p) (cache st)) \<subseteq> set (cache st)" by auto
      from Pop_sweep [OF ok Cons True c] pop sz STATIC sub show ?thesis
        by (cases "filter (\<lambda>p. \<not> first_discarded D p) (cache st)")
           (auto simp: size_ok_def BatchSize_def list_all_iff)
    qed
  qed
qed

text \<open>
  With a batch size of at least 1 and a queue within the size bound, which \<open>Push\<close> keeps
  as long as no oversized blob is pushed, a package returned by \<open>Pop\<close> has at most
  \<open>batch_size\<close> descs.
\<close>

lemma Pop_batch_bound:
  assumes ok: "cache_ok st" and sz: "size_ok st" and pos: "0 < BatchSize st"
    and pop: "Pop D st = Inr (Got p, st', es)"
  shows "length (descs p) \<le> BatchSize st"
proof (cases "cache st")
  case Nil
  with pop show ?thesis by (simp add: Pop_empty split: if_splits)
next
  case (Cons pack q)
  from Cons have ne: "cache st \<noteq> []" by simp
  have stat: "length (descs (PreparePackage STATIC x)) \<le> BatchSize st"
    if "x \<in> set (cache st)" "strategy st = STATIC" for x
    using that sz by (auto simp: size_ok_def PreparePackage_def list_all_iff)
  have dyn: "length (descs (PreparePackage DYNAMIC x)) \<le> BatchSize st"
    if "descs x = []" "length (data x) \<le> BatchSize st" for x
    using that length_item_descs [of "data x"]
    by (simp add: PreparePackage_def MoveDescToPackage_def)
  show ?thesis
  proof (cases "list_ex (item_discarded D) (data pack)")
    case False
    from Pop_clean_head [OF ok Cons False] pop
    have p: "p = PreparePackage (strategy st) pack" by simp
    show ?thesis
    proof (cases "strategy st")
      case DYNAMIC
      with ok sz Cons have "descs pack = []" "length (data pack) \<le> BatchSize st"
        by (simp_all add: cache_ok_def pack_ok_def size_ok_def)
      with p DYNAMIC show ?thesis by (simp add: dyn)
    next
      case STATIC
      with p Cons show ?thesis by (simp add: stat)
    qed
  next
    case True
    show ?thesis
    proof (cases "strategy st")
      case DYNAMIC
      let ?live = "filter (\<lambda>it. \<not> item_discarded D it) (all_items st)"
      note c = ClearDiscard_dynamic [OF ok ne DYNAMIC, of D]
      from Pop_sweep_got [OF ok Cons True c pop] DYNAMIC obtain p' q' where
        r: "rebatch (BatchSize st) ?live [] = p' # q'" "p = PreparePackage DYNAMIC p'"
        by auto
      from r(1) have m: "p' \<in> set (rebatch (BatchSize st) ?live [])" by simp
      from rebatch_packs [OF m] have "descs p' = []" by simp
      moreover from rebatch_batch_size [OF pos m] have "length (data p') \<le> BatchSize st" .
      ultimately show ?thesis using r(2) by (simp add: dyn)
    next
      case STATIC
      note c = ClearDiscard_static [OF ok ne STATIC, of D]
      from Pop_sweep_got [OF ok Cons True c pop] STATIC obtain p' q' where
        r: "filter (\<lambda>p. \<not> first_discarded D p) (cache st) = p' # q'"
           "p = PreparePackage STATIC p'"
        by auto
      from r(1) have "p' \<in> set (filter (\<lambda>p. \<not> first_discarded D p) (cache st))" by simp
      then have "p' \<in> set (cache st)" by simp
      with r(2) STATIC show ?thesis by (simp add: stat)
    qed
  qed
qed

subsection \<open>Every queue in service holds single-request packages\<close>

lemma served_reachable: "served st \<Longrightarrow> reachable st"
  by (induction rule: served.induct) (auto intro: reachable.intros)

lemma Emit_strategy:
  "Emit Get Rid st = Inr st' \<Longrightarrow> strategy st' = strategy st"
  by (auto simp: Emit_def dest: batch_sink_size split: if_splits)

lemma Stop_static:
  assumes "Stop Get Rid st = Inr st'"
  shows "strategy st' = strategy st \<and> (strategy st = STATIC \<longrightarrow> cache st' = cache st)"
proof (cases "strategy st")
  case DYNAMIC
  with assms have "Emit Get Rid (st\<lparr>running := False\<rparr>) = Inr st'" by (simp add: Stop_def)
  from Emit_strategy [OF this] DYNAMIC show ?thesis by simp
next
  case STATIC
  with assms show ?thesis by (auto simp: Stop_def)
qed

lemma Push_strategy:
  assumes "Push Get Rid st (Some pack) = Inr (b, st')"
  shows "strategy st' = strategy st"
proof (cases "running st")
  case False
  with assms show ?thesis by (simp add: Push_def)
next
  case True
  with assms have e: "Enqueue Get Rid st pack = Inr st'"
    by (auto simp: Push_def split: sum.splits)
  show ?thesis
  proof (cases "strategy st")
    case DYNAMIC
    with e have "Enqueue_dynamic Get Rid st (data pack) = Inr st'" by (simp add: Enqueue_def)
    from Enqueue_dynamic_strategy [OF this] show ?thesis .
  next
    case STATIC
    with e show ?thesis by (auto simp: Enqueue_def split: sum.splits)
  qed
qed

lemma Push_returns_one_request:
  assumes ok: "cache_ok st" and stat: "strategy st = STATIC" and one: "one_request pack"
    and all: "list_all one_request (cache st)"
    and push: "Push Get Rid st (Some pack) = Inr (b, st')"
  shows "list_all one_request (cache st')"
proof (cases "running st")
  case False
  with push all show ?thesis by (simp add: Push_def)
next
  case True
  with push obtain st1 where "Enqueue Get Rid st pack = Inr st1"
    by (auto simp: Push_def split: sum.splits)
  from Enqueue_checked [OF this] have "list_all has_desc (data pack)" .
  with ok stat show ?thesis using one all push by (rule Push_one_request)
qed

lemma served_one_request:
  "served st \<Longrightarrow> strategy st = STATIC \<longrightarrow> list_all one_request (cache st)"
proof (induction rule: served.induct)
  case (created strat capacity bs)
  show ?case by (simp add: CacheBase_new_def)
next
  case (started st)
  then show ?case by (simp add: Start_def)
next
  case (stopped st Get Rid st')
  from Stop_static [OF stopped.hyps(2)] stopped.IH show ?case by auto
next
  case (pushed st pack Get Rid b st')
  from pushed.hyps(1) have ok: "cache_ok st" by (intro reachable_cache_ok served_reachable)
  from Push_strategy [OF pushed.hyps(3)] have s: "strategy st' = strategy st" .
  show ?case
  proof
    assume "strategy st' = STATIC"
    with s have st: "strategy st = STATIC" by simp
    with pushed.IH have "list_all one_request (cache st)" by simp
    with ok st pushed.hyps(2) show "list_all one_request (cache st')"
      using pushed.hyps(3) by (rule Push_returns_one_request)
  qed
next
  case (popped st D r st' es)
  from popped.hyps(1) have ok: "cache_ok st" by (intro reachable_cache_ok served_reachable)
  from Pop_cache_ok [OF ok popped.hyps(2)] popped.IH show ?case
    by (auto simp: list_all_iff)
next
  case (flushed st Get Rid st')
  from Emit_strategy [OF flushed.hyps(3)] flushed.hyps(2) show ?case by simp
qed

text \<open>
  In \<open>Pop\<close> the descs of a dynamic package are collected only from items whose \<open>desc\<close>
  has been dereferenced before, by the \<open>find_if\<close> or by the sweep: no item without
  descriptor reaches \<open>MoveDescToPackage\<close>.
\<close>

lemma any_discarded_checked:
  "any_discarded D xs = Inr False \<Longrightarrow> list_all has_desc xs"
  by (induction xs) (auto simp: has_desc_def split: option.splits if_splits)

lemma scan_items_checked:
  "scan_items D xs = Inr (keep, es) \<Longrightarrow> list_all has_desc keep"
  by (induction xs arbitrary: keep es)
     (auto simp: has_desc_def split: option.splits sum.splits if_splits)

lemma collect_live_checked:
  "collect_live D q = Inr (keep, es) \<Longrightarrow> list_all has_desc keep"
proof (induction q arbitrary: keep es)
  case Nil
  then show ?case by simp
next
  case (Cons pack q)
  from Cons.prems obtain k1 e1 k2 e2 where
    a: "scan_items D (data pack) = Inr (k1, e1)" "collect_live D q = Inr (k2, e2)"
       "keep = k1 @ k2"
    by (auto split: sum.splits)
  from scan_items_checked [OF a(1)] Cons.IH [OF a(2)] a(3) show ?case by simp
qed

lemma Pop_prepares_checked:
  assumes "strategy st = DYNAMIC" and "Pop D st = Inr (Got p, st', es)"
  shows "\<exists>pack. p = MoveDescToPackage pack \<and> list_all has_desc (data pack)"
proof (cases "cache st")
  case Nil
  with assms show ?thesis by (simp add: Pop_def split: if_splits)
next
  case (Cons hd q)
  show ?thesis
  proof (cases "any_discarded D (data hd)")
    case (Inl f)
    with Cons assms show ?thesis by (simp add: Pop_def)
  next
    case (Inr b)
    show ?thesis
    proof (cases b)
      case False
      with Inr Cons assms any_discarded_checked [of D "data hd"] show ?thesis
        by (auto simp: Pop_def PreparePackage_def)
    next
      case True
      with Inr Cons assms obtain live es1 pack q' where
        c: "collect_live D (cache st) = Inr (live, es1)"
           "rebatch (BatchSize st) live [] = pack # q'" "p = MoveDescToPackage pack"
        by (auto simp: Pop_def ClearDiscard_def PreparePackage_def
              split: sum.splits list.splits if_splits)
      from c(2) have "pack \<in> set (rebatch (BatchSize st) live [])" by simp
      from rebatch_packs [OF this] have "set (data pack) \<subseteq> set live" by simp
      with collect_live_checked [OF c(1)] have "list_all has_desc (data pack)"
        by (auto simp: list_all_iff)
      with c(3) show ?thesis by blast
    qed
  qed
qed

subsection \<open>Concrete runs\<close>

text \<open>
  C2.  A running dynamic cache holds one package with one item, whose control is
  discarded.  The sweep empties the queue and \<open>Pop\<close> returns null while the cache is
  running.
\<close>

theorem Pop_running_null_counterexample:
  "Push id int (Start (CacheBase_new DYNAMIC 8 1)) (Some (request_of [item 1 0] 1))
     = Inr (True, lone_cache)
   \<and> running lone_cache
   \<and> Pop discarded_1 lone_cache = Inr (Null, drained lone_cache, [ProcessFailed 1 SUCCESS])"
  by (simp add: Push_def Start_def CacheBase_new_def Enqueue_def AddItem_def batch_sink_def
        BatchSize_def request_of_def item_def lone_cache_def Pop_def ClearDiscard_def
        discarded_1_def drained_def Let_def)

text \<open>
  C3.  A static cache with batch size 4 is given a continuous blob: one data element with
  \<open>data_num = 10\<close>.  The package \<open>Pop\<close> returns has 10 descs.
\<close>

theorem Pop_static_blob_exceeds:
  "Push id int (Start (CacheBase_new STATIC 8 4)) (Some (request_of [item 1 0] 10))
     = Inr (True, blob_cache)
   \<and> Pop none_discarded blob_cache = Inr (Got blob_package, drained blob_cache, [])
   \<and> length (descs blob_package) = 10 \<and> BatchSize blob_cache = 4"
  by (simp add: Push_def Start_def CacheBase_new_def Enqueue_def static_loop.simps
        seal_static_def CopyDescToPackageContinuous_def fresh_Package_def request_of_def item_def
        blob_cache_def blob_package_def Pop_def PreparePackage_def reset_desc_def
        none_discarded_def BatchSize_def drained_def Let_def)

theorem Pop_returns_live_witness:
  "cache_ok dyn_cache
   \<and> Pop discarded_2 dyn_cache
     = Inr (Got \<lparr>data = [\<lparr>payload = 10, desc = None\<rparr>, \<lparr>payload = 30, desc = None\<rparr>],
                 descs = [\<lparr>ctrl = 1, index = 0\<rparr>, \<lparr>ctrl = 3, index = 0\<rparr>],
                 priority = 0, data_num = 2\<rparr>,
            dyn_cache\<lparr>cache := []\<rparr>, [ProcessFailed 2 SUCCESS])
   \<and> cache_ok two_requests \<and> list_all one_request (cache two_requests)
   \<and> Pop discarded_2 two_requests
     = Inr (Got \<lparr>data = [\<lparr>payload = 10, desc = None\<rparr>], descs = [\<lparr>ctrl = 1, index = 0\<rparr>],
                 priority = - 1, data_num = 1\<rparr>,
            two_requests\<lparr>cache := []\<rparr>,
            [ProcessFailed 2 SUCCESS, ProcessFailed 2 SUCCESS])
   \<and> \<not> discarded_2 1 \<and> \<not> discarded_2 3"
proof -
  have a: "cache_ok dyn_cache"
    by (simp add: cache_ok_def pack_ok_def dyn_cache_def has_desc_def item_def)
  have b: "Pop discarded_2 dyn_cache
     = Inr (Got \<lparr>data = [\<lparr>payload = 10, desc = None\<rparr>, \<lparr>payload = 30, desc = None\<rparr>],
                 descs = [\<lparr>ctrl = 1, index = 0\<rparr>, \<lparr>ctrl = 3, index = 0\<rparr>],
                 priority = 0, data_num = 2\<rparr>,
            dyn_cache\<lparr>cache := []\<rparr>, [ProcessFailed 2 SUCCESS])"
    by (simp add: Pop_def ClearDiscard_def dyn_cache_def item_def discarded_2_def BatchSize_def
          PreparePackage_def MoveDescToPackage_def reset_desc_def fresh_Package_def Let_def)
  have c: "cache_ok two_requests"
    by (simp add: cache_ok_def pack_ok_def two_requests_def has_desc_def item_def)
  have d: "list_all one_request (cache two_requests)"
    by (simp add: one_request_def two_requests_def item_def)
  have e: "Pop discarded_2 two_requests
     = Inr (Got \<lparr>data = [\<lparr>payload = 10, desc = None\<rparr>], descs = [\<lparr>ctrl = 1, index = 0\<rparr>],
                 priority = - 1, data_num = 1\<rparr>,
            two_requests\<lparr>cache := []\<rparr>,
            [ProcessFailed 2 SUCCESS, ProcessFailed 2 SUCCESS])"
    by (simp add: Pop_def ClearDiscard_def two_requests_def item_def discarded_2_def
          PreparePackage_def reset_desc_def)
  from Pop_returns_live [OF a b] Pop_returns_live [OF c e] d a b c e show ?thesis
    by (simp add: dyn_cache_def two_requests_def)
qed

theorem Pop_null_cases_witness:
  "cache_ok lone_cache \<and> running lone_cache \<and> head_discarded discarded_1 lone_cache
   \<and> nothing_survives discarded_1 lone_cache
   \<and> (\<exists>st' es. Pop discarded_1 lone_cache = Inr (Null, st', es))
   \<and> cache_ok dyn_cache \<and> \<not> nothing_survives discarded_2 dyn_cache
   \<and> (\<exists>p st' es. Pop discarded_2 dyn_cache = Inr (Got p, st', es))"
proof -
  have a: "cache_ok lone_cache"
    by (simp add: cache_ok_def pack_ok_def lone_cache_def has_desc_def item_def)
  have b: "head_discarded discarded_1 lone_cache" "nothing_survives discarded_1 lone_cache"
    "running lone_cache"
    by (simp_all add: head_discarded_def nothing_survives_def lone_cache_def item_discarded_def
          all_items_def item_def discarded_1_def)
  have c: "cache_ok dyn_cache"
    by (simp add: cache_ok_def pack_ok_def dyn_cache_def has_desc_def item_def)
  have d: "\<not> nothing_survives discarded_2 dyn_cache" "cache dyn_cache \<noteq> []"
    by (simp_all add: nothing_survives_def dyn_cache_def item_discarded_def
          all_items_def item_def discarded_2_def)
  from Pop_null_cases [OF a, of discarded_1] b have
    "\<exists>st' es. Pop discarded_1 lone_cache = Inr (Null, st', es)"
    by (auto simp: lone_cache_def)
  moreover from Pop_null_cases [OF c, of discarded_2] d have
    "\<exists>p st' es. Pop discarded_2 dyn_cache = Inr (Got p, st', es)"
    by auto
  ultimately show ?thesis using a b c d by simp
qed

theorem sweep_reports_success_witness:
  "cache_ok dyn_cache \<and> cache dyn_cache \<noteq> []
   \<and> (\<exists>st1. ClearDiscard discarded_2 dyn_cache = Inr (st1, [ProcessFailed 2 SUCCESS])
          \<and> all_items st1 = [item 1 0, item 3 0])
   \<and> cache_ok two_requests \<and> cache two_requests \<noteq> []
   \<and> (\<exists>st1. ClearDiscard discarded_2 two_requests
               = Inr (st1, [ProcessFailed 2 SUCCESS, ProcessFailed 2 SUCCESS])
          \<and> cache st1 = tl (cache two_requests))"
proof -
  have a: "cache_ok dyn_cache" "cache dyn_cache \<noteq> []" "strategy dyn_cache = DYNAMIC"
    by (simp_all add: cache_ok_def pack_ok_def dyn_cache_def has_desc_def item_def)
  have c: "cache_ok two_requests" "cache two_requests \<noteq> []" "strategy two_requests = STATIC"
    by (simp_all add: cache_ok_def pack_ok_def two_requests_def has_desc_def item_def)
  have e1: "filter (\<lambda>it. \<not> item_discarded discarded_2 it) (all_items dyn_cache)
              = [item 1 0, item 3 0]"
    "map report (item_descs (filter (item_discarded discarded_2) (all_items dyn_cache)))
       = [ProcessFailed 2 SUCCESS]"
    by (simp_all add: all_items_def dyn_cache_def item_discarded_def item_def discarded_2_def
          report_def)
  have e2: "filter (\<lambda>p. \<not> first_discarded discarded_2 p) (cache two_requests)
              = tl (cache two_requests)"
    "map report (item_descs (concat (map data
        (filter (first_discarded discarded_2) (cache two_requests)))))
       = [ProcessFailed 2 SUCCESS, ProcessFailed 2 SUCCESS]"
    by (simp_all add: two_requests_def first_discarded_def item_discarded_def item_def
          discarded_2_def report_def)
  from sweep_reports_success [OF a(1,2), of discarded_2] a(3) e1 have
    "\<exists>st1. ClearDiscard discarded_2 dyn_cache = Inr (st1, [ProcessFailed 2 SUCCESS])
          \<and> all_items st1 = [item 1 0, item 3 0]"
    by auto
  moreover from sweep_reports_success [OF c(1,2), of discarded_2] c(3) e2 have
    "\<exists>st1. ClearDiscard discarded_2 two_requests
               = Inr (st1, [ProcessFailed 2 SUCCESS, ProcessFailed 2 SUCCESS])
          \<and> cache st1 = tl (cache two_requests)"
    by auto
  ultimately show ?thesis using a c by simp
qed

theorem Push_running_gate_witness:
  "\<not> running (CacheBase_new STATIC 8 2)
   \<and> Push id int (CacheBase_new STATIC 8 2) (Some (request_of [item 1 0, item 1 1, item 1 2] 3))
       = Inr (False, CacheBase_new STATIC 8 2)
   \<and> running dyn_cache \<and> list_all has_desc [item 1 0, item 1 1, item 1 2]
   \<and> list_all has_desc (batcher dyn_cache)
   \<and> (\<exists>st'. Push id int dyn_cache (Some (request_of [item 1 0, item 1 1, item 1 2] 3))
              = Inr (True, st'))"
proof -
  have a: "\<not> running (CacheBase_new STATIC 8 2)" by (simp add: CacheBase_new_def)
  have b: "running dyn_cache" "list_all has_desc [item 1 0, item 1 1, item 1 2]"
    "list_all has_desc (batcher dyn_cache)"
    by (simp_all add: dyn_cache_def has_desc_def item_def)
  from Push_running_gate [of "CacheBase_new STATIC 8 2" id int
      "request_of [item 1 0, item 1 1, item 1 2] 3"]
    Push_running_gate [of dyn_cache id int "request_of [item 1 0, item 1 1, item 1 2] 3"]
    a b show ?thesis by (simp add: request_of_def)
qed

end
